theory Spec2Isabelle
  imports Main "HOL-Library.Char_ord" "HOL-Library.List_Lexorder" "HOL-Library.Multiset"
begin

section \<open>The cron schedule builder of the bot\<close>

text \<open>
  The model follows \<^verbatim>\<open>Bot/app/cuckoo_cron_build.py\<close>, \<^verbatim>\<open>Bot/app/constants.py\<close>,
  \<^verbatim>\<open>Bot/app/user_data_dataclass.py\<close> and the schedule handlers of
  \<^verbatim>\<open>Bot/app/second_level_menu.py\<close>.  Python strings are lists of characters compared by
  code point, Python integers are \<open>int\<close>, a raised exception is the left summand of a
  result.
\<close>

subsection \<open>Decimal numerals\<close>

text \<open>\<^verbatim>\<open>str(n)\<close> and the f-string rendering of an integer.\<close>

definition digit_char :: "nat \<Rightarrow> char" where
  "digit_char d = char_of (48 + d)"

fun str_nat :: "nat \<Rightarrow> string" where
  "str_nat n = (if n < 10 then [digit_char n] else str_nat (n div 10) @ [digit_char (n mod 10)])"

declare str_nat.simps [simp del]

definition str_int :: "int \<Rightarrow> string" where
  "str_int i = (if i < 0 then CHR ''-'' # str_nat (nat (- i)) else str_nat (nat i))"

text \<open>Decimal digits and the value of a digit string.\<close>

definition is_digit :: "char \<Rightarrow> bool" where
  "is_digit c = (48 \<le> (of_char c :: nat) \<and> (of_char c :: nat) \<le> 57)"

definition digit_val :: "char \<Rightarrow> nat" where
  "digit_val c = of_char c - 48"

definition digits_val :: "string \<Rightarrow> nat" where
  "digits_val ds = foldl (\<lambda>acc c. 10 * acc + digit_val c) 0 ds"

subsection \<open>Range compressor\<close>

text \<open>\<^verbatim>\<open>bld_cron_token_from_num_list\<close>.  The list \<^verbatim>\<open>sequences_and_singles\<close> holds an integer
  for a run of one number and a pair for a longer run.\<close>

datatype item = Single int | Span int int

text \<open>What the loop appends when a run ends, and after the loop.\<close>

definition flush :: "int \<Rightarrow> int \<Rightarrow> item" where
  "flush current_start current_end =
     (if current_start = current_end then Single current_start
      else Span current_start current_end)"

text \<open>The loop over \<^verbatim>\<open>numbers[1:]\<close> with its variables \<^verbatim>\<open>current_start\<close>,
  \<^verbatim>\<open>current_end\<close> and the list built so far.\<close>

fun scan_numbers :: "int \<Rightarrow> int \<Rightarrow> item list \<Rightarrow> int list \<Rightarrow> item list" where
  "scan_numbers current_start current_end acc [] = acc @ [flush current_start current_end]"
| "scan_numbers current_start current_end acc (num # rest) =
     (if num = current_end + 1 then scan_numbers current_start num acc rest
      else scan_numbers num num (acc @ [flush current_start current_end]) rest)"

text \<open>The second loop: \<^verbatim>\<open>f"{item[0]}-{item[1]},"\<close> for a pair, \<^verbatim>\<open>f"{item},"\<close> for an
  integer.\<close>

fun fmt_item :: "item \<Rightarrow> string" where
  "fmt_item (Single a) = str_int a @ '',''"
| "fmt_item (Span a b) = str_int a @ ''-'' @ str_int b @ '',''"

definition render_items :: "item list \<Rightarrow> string" where
  "render_items items = foldl (\<lambda>output_string item. output_string @ fmt_item item) [] items"

text \<open>\<^verbatim>\<open>s.rstrip(c)\<close> drops every trailing occurrence of the character.\<close>

definition rstrip :: "char \<Rightarrow> string \<Rightarrow> string" where
  "rstrip c s = rev (dropWhile (\<lambda>x. x = c) (rev s))"

definition bld_cron_token_from_num_list :: "int list \<Rightarrow> string" where
  "bld_cron_token_from_num_list numbers =
     (if numbers = [] then ''not set''
      else (let ns = sort numbers
            in rstrip CHR '','' (render_items (scan_numbers (hd ns) (hd ns) [] (tl ns)))))"

subsection \<open>Reading a token back\<close>

text \<open>The repository has no function that expands a token.  The expansion of the
  round-trip law follows the words of the spec: the token is split at the commas
  (as \<^verbatim>\<open>str.split\<close> does), a fragment \<open>a\<close> stands for the singleton of \<open>a\<close>, a fragment
  \<open>a-b\<close> for the integers from \<open>a\<close> to \<open>b\<close>.  An integer is an optional minus sign and
  decimal digits; anything else does not parse.\<close>

fun split_str :: "char \<Rightarrow> string \<Rightarrow> string list" where
  "split_str sep [] = [[]]"
| "split_str sep (c # cs) =
     (if c = sep then [] # split_str sep cs
      else (case split_str sep cs of [] \<Rightarrow> [[c]] | f # fs \<Rightarrow> (c # f) # fs))"

definition read_nat :: "string \<Rightarrow> (nat \<times> string) option" where
  "read_nat s = (if takeWhile is_digit s = [] then None
                 else Some (digits_val (takeWhile is_digit s), dropWhile is_digit s))"

definition read_int :: "string \<Rightarrow> (int \<times> string) option" where
  "read_int s =
     (case s of
        [] \<Rightarrow> None
      | c # r \<Rightarrow>
          if c = CHR ''-'' then map_option (\<lambda>(n, t). (- int n, t)) (read_nat r)
          else map_option (\<lambda>(n, t). (int n, t)) (read_nat s))"

definition expand_fragment :: "string \<Rightarrow> int set option" where
  "expand_fragment s =
     (case read_int s of
        None \<Rightarrow> None
      | Some (a, rest) \<Rightarrow>
          (case rest of
             [] \<Rightarrow> Some {a}
           | c # t \<Rightarrow>
               if c = CHR ''-'' then
                 (case read_int t of
                    Some (b, []) \<Rightarrow> Some {a..b}
                  | _ \<Rightarrow> None)
               else None))"

fun union_all :: "int set option list \<Rightarrow> int set option" where
  "union_all [] = Some {}"
| "union_all (x # xs) =
     (case x of None \<Rightarrow> None
      | Some a \<Rightarrow> (case union_all xs of None \<Rightarrow> None | Some b \<Rightarrow> Some (a \<union> b)))"

definition expand_token :: "string \<Rightarrow> int set option" where
  "expand_token t = union_all (map expand_fragment (split_str CHR '','' t))"

text \<open>The integers a fragment of the compressor stands for, the text of a fragment, and
  the fragments joined by commas.\<close>

fun cover :: "item \<Rightarrow> int set" where
  "cover (Single a) = {a}"
| "cover (Span a b) = {a..b}"

fun item_str :: "item \<Rightarrow> string" where
  "item_str (Single a) = str_int a"
| "item_str (Span a b) = str_int a @ ''-'' @ str_int b"

fun join_items :: "item list \<Rightarrow> string" where
  "join_items [] = []"
| "join_items [i] = item_str i"
| "join_items (i # j # r) = item_str i @ '','' @ join_items (j # r)"

text \<open>A rest of the input at which the reading of digits stops.\<close>

definition stops :: "string \<Rightarrow> bool" where
  "stops rest = (case rest of [] \<Rightarrow> True | c # _ \<Rightarrow> \<not> is_digit c)"

subsection \<open>Constants\<close>

text \<open>The five schedule components; the source keys them by the strings
  \<^verbatim>\<open>"minute"\<close>, \<^verbatim>\<open>"hour"\<close>, \<^verbatim>\<open>"day"\<close>, \<^verbatim>\<open>"month"\<close> and \<^verbatim>\<open>"day_of_week"\<close>.\<close>

datatype dimension = Minute | Hour | Day | Month | Day_of_week

definition NO_VALUES :: string where
  "NO_VALUES = ''-1''"

definition ALL_VALUES :: string where
  "ALL_VALUES = ''0''"

definition month_names :: "string list" where
  "month_names = [''January'', ''February'', ''March'', ''April'', ''May'', ''June'', ''July'',
     ''August'', ''September'', ''October'', ''November'', ''December'']"

definition day_of_week_names :: "string list" where
  "day_of_week_names = [''Sunday'', ''Monday'', ''Tuesday'', ''Wednesday'', ''Thursday'',
     ''Friday'', ''Saturday'']"

text \<open>\<^verbatim>\<open>[str(i) for i in range(a, b)]\<close> for non-negative bounds.\<close>

definition str_range :: "nat \<Rightarrow> nat \<Rightarrow> string list" where
  "str_range a b = map (\<lambda>i. str_int (int i)) [a..<b]"

fun full_range_dict :: "dimension \<Rightarrow> string list" where
  "full_range_dict Day = str_range 1 32"
| "full_range_dict Day_of_week = day_of_week_names"
| "full_range_dict Month = month_names"
| "full_range_dict Hour = str_range 0 25"
| "full_range_dict Minute = str_range 0 61"

subsection \<open>Regular expressions of the allow-list\<close>

text \<open>The fragment of Python's \<^verbatim>\<open>re\<close> syntax that the value patterns use: the anchors
  \<^verbatim>\<open>^\<close> and \<^verbatim>\<open>$\<close>, literal characters, character ranges \<^verbatim>\<open>[a-b]\<close>, sequence,
  alternation and \<^verbatim>\<open>?\<close>; \<open>Eps\<close> is the empty pattern.\<close>

datatype regex = Eps | Bol | Eol | Lit char | Cls char char
  | Seq regex regex | Alt regex regex | Opt regex

definition newline :: char where
  "newline = CHR 0x0A"

text \<open>All ways of matching a pattern at a position: the position is the number of
  characters consumed so far together with the rest of the subject.  Without the
  MULTILINE flag \<^verbatim>\<open>^\<close> holds at position 0 only, and \<^verbatim>\<open>$\<close> holds at the end of the
  subject and also just before a newline that ends the subject.\<close>

fun rx_step :: "regex \<Rightarrow> nat \<times> string \<Rightarrow> (nat \<times> string) list" where
  "rx_step Eps p = [p]"
| "rx_step Bol (i, s) = (if i = 0 then [(i, s)] else [])"
| "rx_step Eol (i, s) = (if s = [] \<or> s = [newline] then [(i, s)] else [])"
| "rx_step (Lit c) (i, s) =
     (case s of [] \<Rightarrow> [] | x # t \<Rightarrow> if x = c then [(Suc i, t)] else [])"
| "rx_step (Cls lo hi) (i, s) =
     (case s of [] \<Rightarrow> [] | x # t \<Rightarrow> if lo \<le> x \<and> x \<le> hi then [(Suc i, t)] else [])"
| "rx_step (Seq r1 r2) p = concat (map (rx_step r2) (rx_step r1 p))"
| "rx_step (Alt r1 r2) p = rx_step r1 p @ rx_step r2 p"
| "rx_step (Opt r) p = rx_step r p @ [p]"

text \<open>\<^verbatim>\<open>re.match(pattern, s)\<close> is truthy when the pattern matches some prefix of \<open>s\<close>.\<close>

definition re_match :: "regex \<Rightarrow> string \<Rightarrow> bool" where
  "re_match r s = (rx_step r (0, s) \<noteq> [])"

fun lit :: "string \<Rightarrow> regex" where
  "lit [] = Eps"
| "lit [c] = Lit c"
| "lit (c # cs) = Seq (Lit c) (lit cs)"

text \<open>\<^verbatim>\<open>"^" + w + "$"\<close>\<close>

definition anchored :: "string \<Rightarrow> regex" where
  "anchored w = Seq Bol (Seq (lit w) Eol)"

text \<open>\<^verbatim>\<open>"|".join(...)\<close>\<close>

fun alts :: "regex list \<Rightarrow> regex" where
  "alts [] = Eps"
| "alts [r] = r"
| "alts (r # rs) = Alt r (alts rs)"

definition digit09 :: regex where
  "digit09 = Cls CHR ''0'' CHR ''9''"

text \<open>\<^verbatim>\<open>^(-1|[0-9]|1?[0-9]|2[0-9]|3[0-1])$\<close>\<close>

definition days_re_pattern :: regex where
  "days_re_pattern =
     Seq Bol (Seq (alts [lit ''-1'', digit09, Seq (Opt (Lit CHR ''1'')) digit09,
                         Seq (Lit CHR ''2'') digit09,
                         Seq (Lit CHR ''3'') (Cls CHR ''0'' CHR ''1'')]) Eol)"

text \<open>\<^verbatim>\<open>r"^-1$|^0$|" + "|".join("^" + dow + "$" for dow in _day_of_week_names)\<close>\<close>

definition days_of_week_re_pattern :: regex where
  "days_of_week_re_pattern =
     alts ([anchored ''-1'', anchored ''0''] @ map anchored day_of_week_names)"

definition months_re_pattern :: regex where
  "months_re_pattern = alts ([anchored ''-1'', anchored ''0''] @ map anchored month_names)"

text \<open>\<^verbatim>\<open>^-1$|^0$|^minute_(?:[0-9]|[1-5][0-9]|60)$\<close>\<close>

definition minutes_re_pattern :: regex where
  "minutes_re_pattern =
     alts [anchored ''-1'', anchored ''0'',
           Seq Bol (Seq (lit ''minute_'')
             (Seq (alts [digit09, Seq (Cls CHR ''1'' CHR ''5'') digit09, lit ''60'']) Eol))]"

text \<open>\<^verbatim>\<open>^-1$|^0$|^hour_(?:[0-9]|1[0-9]|2[0-3])$\<close>\<close>

definition hours_re_pattern :: regex where
  "hours_re_pattern =
     alts [anchored ''-1'', anchored ''0'',
           Seq Bol (Seq (lit ''hour_'')
             (Seq (alts [digit09, Seq (Lit CHR ''1'') digit09,
                         Seq (Lit CHR ''2'') (Cls CHR ''0'' CHR ''3'')]) Eol))]"

fun value_pattern_dict :: "dimension \<Rightarrow> regex" where
  "value_pattern_dict Day = days_re_pattern"
| "value_pattern_dict Day_of_week = days_of_week_re_pattern"
| "value_pattern_dict Month = months_re_pattern"
| "value_pattern_dict Hour = hours_re_pattern"
| "value_pattern_dict Minute = minutes_re_pattern"

text \<open>\<^verbatim>\<open>re.sub(r"^(hour_|minute_)", "", s)\<close>: the anchor allows one replacement, at the
  start.\<close>

definition strip_prefix :: "string \<Rightarrow> string" where
  "strip_prefix s =
     (if take 5 s = ''hour_'' then drop 5 s
      else if take 7 s = ''minute_'' then drop 7 s
      else s)"

subsection \<open>Field codec\<close>

datatype error = ValueError | AttributeError | DescriptionError

text \<open>Python's \<^verbatim>\<open>int(s)\<close> on a string, base 10: surrounding whitespace is dropped, one sign
  is allowed, and the digits may be separated by single underscores.  \<open>None\<close> is the
  \<^verbatim>\<open>ValueError\<close>.  The whitespace that \<^verbatim>\<open>int\<close> drops, below code point 256, is tab, line
  feed, vertical tab, form feed, carriage return, space, and the two characters
  \<^verbatim>\<open>\x85\<close> and \<^verbatim>\<open>\xa0\<close>; the separators \<^verbatim>\<open>\x1c\<close> to \<^verbatim>\<open>\x1f\<close> are not dropped.\<close>

definition py_isspace :: "char \<Rightarrow> bool" where
  "py_isspace c = (c \<in> set [CHR 0x09, CHR 0x0A, CHR 0x0B, CHR 0x0C, CHR 0x0D,
     CHR 0x20, CHR 0x85, CHR 0xA0])"

definition strip_ws :: "string \<Rightarrow> string" where
  "strip_ws s = rev (dropWhile py_isspace (rev (dropWhile py_isspace s)))"

fun valid_body :: "string \<Rightarrow> bool" where
  "valid_body [] = False"
| "valid_body [c] = is_digit c"
| "valid_body (c # d # r) =
     (is_digit c \<and> (if d = CHR ''_'' then valid_body r else valid_body (d # r)))"

definition py_int :: "string \<Rightarrow> int option" where
  "py_int s =
     (let t = strip_ws s;
          neg = (case t of [] \<Rightarrow> False | c # _ \<Rightarrow> c = CHR ''-'');
          body = (case t of [] \<Rightarrow> [] | c # r \<Rightarrow> if c = CHR ''-'' \<or> c = CHR ''+'' then r else t)
      in if valid_body body
         then Some ((if neg then - 1 else 1) * int (digits_val (filter (\<lambda>c. c \<noteq> CHR ''_'') body)))
         else None)"

text \<open>\<^verbatim>\<open>[int(x) for x in xs]\<close>: the first label that does not parse raises.\<close>

fun int_list :: "string list \<Rightarrow> error + int list" where
  "int_list [] = Inr []"
| "int_list (x # xs) =
     (case py_int x of
        None \<Rightarrow> Inl ValueError
      | Some n \<Rightarrow> (case int_list xs of Inl e \<Rightarrow> Inl e | Inr ns \<Rightarrow> Inr (n # ns)))"

text \<open>\<^verbatim>\<open>names.index(x)\<close>: the first position of \<open>x\<close>, or \<^verbatim>\<open>ValueError\<close>.\<close>

fun py_index :: "'a list \<Rightarrow> 'a \<Rightarrow> nat option" where
  "py_index [] x = None"
| "py_index (y # ys) x = (if y = x then Some 0 else map_option Suc (py_index ys x))"

fun index_list :: "string list \<Rightarrow> nat \<Rightarrow> string list \<Rightarrow> error + int list" where
  "index_list names offset [] = Inr []"
| "index_list names offset (x # xs) =
     (case py_index names x of
        None \<Rightarrow> Inl ValueError
      | Some i \<Rightarrow> (case index_list names offset xs of
                     Inl e \<Rightarrow> Inl e
                   | Inr ns \<Rightarrow> Inr (int (i + offset) # ns)))"

definition bld_num_list_minutes :: "string list \<Rightarrow> error + int list" where
  "bld_num_list_minutes minutes = int_list minutes"

definition bld_num_list_hours :: "string list \<Rightarrow> error + int list" where
  "bld_num_list_hours hours = int_list hours"

definition bld_num_list_day_of_months :: "string list \<Rightarrow> error + int list" where
  "bld_num_list_day_of_months doms = int_list doms"

definition bld_num_list_months :: "string list \<Rightarrow> error + int list" where
  "bld_num_list_months months = index_list month_names 1 months"

definition bld_num_list_day_of_week :: "string list \<Rightarrow> error + int list" where
  "bld_num_list_day_of_week dows = index_list day_of_week_names 0 dows"

fun bld_num_list_methods :: "dimension \<Rightarrow> string list \<Rightarrow> error + int list" where
  "bld_num_list_methods Minute = bld_num_list_minutes"
| "bld_num_list_methods Hour = bld_num_list_hours"
| "bld_num_list_methods Day = bld_num_list_day_of_months"
| "bld_num_list_methods Month = bld_num_list_months"
| "bld_num_list_methods Day_of_week = bld_num_list_day_of_week"

subsection \<open>Schedule configuration and schedule entry\<close>

record ScheduleConfig =
  minute :: "string list"
  hour :: "string list"
  day :: "string list"
  month :: "string list"
  day_of_week :: "string list"

fun getattr :: "ScheduleConfig \<Rightarrow> dimension \<Rightarrow> string list" where
  "getattr c Minute = minute c"
| "getattr c Hour = hour c"
| "getattr c Day = day c"
| "getattr c Month = month c"
| "getattr c Day_of_week = day_of_week c"

fun setattr :: "ScheduleConfig \<Rightarrow> dimension \<Rightarrow> string list \<Rightarrow> ScheduleConfig" where
  "setattr c Minute v = c\<lparr>minute := v\<rparr>"
| "setattr c Hour v = c\<lparr>hour := v\<rparr>"
| "setattr c Day v = c\<lparr>day := v\<rparr>"
| "setattr c Month v = c\<lparr>month := v\<rparr>"
| "setattr c Day_of_week v = c\<lparr>day_of_week := v\<rparr>"

definition new_ScheduleConfig :: ScheduleConfig where
  "new_ScheduleConfig = \<lparr>minute = [], hour = [], day = [], month = [], day_of_week = []\<rparr>"



text \<open>\<^verbatim>\<open>sorted(values_list) == sorted(full_range)\<close> compares the two lists of strings
  in code-point order; then the labels are converted and compressed.\<close>

definition bld_cron_token_schedule_info :: "ScheduleConfig \<Rightarrow> dimension \<Rightarrow> error + string" where
  "bld_cron_token_schedule_info schedule_info key =
     (let values_list = getattr schedule_info key
      in if sort values_list = sort (full_range_dict key) then Inr ''*''
         else (case bld_num_list_methods key values_list of
                 Inl e \<Rightarrow> Inl e
               | Inr numbers \<Rightarrow> Inr (bld_cron_token_from_num_list numbers)))"

definition button_keys :: "dimension list" where
  "button_keys = [Minute, Hour, Day, Month, Day_of_week]"

fun cron_loop :: "ScheduleConfig \<Rightarrow> string \<Rightarrow> dimension list \<Rightarrow> error + string" where
  "cron_loop schedule_info cron_string [] = Inr cron_string"
| "cron_loop schedule_info cron_string (key # keys) =
     (case bld_cron_token_schedule_info schedule_info key of
        Inl e \<Rightarrow> Inl e
      | Inr token \<Rightarrow> cron_loop schedule_info (cron_string @ token @ '' '') keys)"

definition build_cron_string :: "ScheduleConfig \<Rightarrow> dimension list \<Rightarrow> error + string" where
  "build_cron_string schedule_info keys =
     (case cron_loop schedule_info [] keys of
        Inl e \<Rightarrow> Inl e
      | Inr cron_string \<Rightarrow> Inr (rstrip CHR '' '' cron_string))"

record ScheduleEntry =
  device_id :: int
  user_id :: int
  cron_string :: string
  sound_file_path :: "string option"





subsection \<open>Toggle transition\<close>

text \<open>The body of \<^verbatim>\<open>set_sched_parameter_value\<close> for the component being edited
  (\<^verbatim>\<open>user_action_keys[user_data[USER_DATA_SELECTED_SCHED_PART]]\<close>) and the callback data
  of the query.  A token that does not match the component's pattern changes
  nothing.\<close>

definition set_sched_parameter_value ::
  "dimension \<Rightarrow> string \<Rightarrow> ScheduleConfig \<Rightarrow> ScheduleConfig" where
  "set_sched_parameter_value user_set_key query_data schedule_info =
     (if re_match (value_pattern_dict user_set_key) query_data then
        (if query_data = NO_VALUES then setattr schedule_info user_set_key []
         else if query_data = ALL_VALUES then
           setattr schedule_info user_set_key (full_range_dict user_set_key)
         else
           (let accepted_data = strip_prefix query_data;
                values_list = getattr schedule_info user_set_key
            in if accepted_data \<in> set values_list
               then setattr schedule_info user_set_key (remove1 accepted_data values_list)
               else setattr schedule_info user_set_key (values_list @ [accepted_data])))
      else schedule_info)"

text \<open>A sequence of toggle events, each for the component edited at that moment.\<close>

fun run_toggles :: "(dimension \<times> string) list \<Rightarrow> ScheduleConfig \<Rightarrow> ScheduleConfig" where
  "run_toggles [] c = c"
| "run_toggles ((d, tok) # evs) c = run_toggles evs (set_sched_parameter_value d tok c)"

subsection \<open>Notions used to state the properties\<close>

text \<open>The least and the greatest integer of a fragment, and the shape the spec asks
  of a token: fragments in ascending order, a range with its lower bound below its
  upper bound, and between two neighbours at least one integer left out, so that no
  boundary is repeated and no two fragments could be merged.\<close>

fun item_lo :: "item \<Rightarrow> int" where
  "item_lo (Single a) = a"
| "item_lo (Span a b) = a"

fun item_hi :: "item \<Rightarrow> int" where
  "item_hi (Single a) = a"
| "item_hi (Span a b) = b"

fun item_ok :: "item \<Rightarrow> bool" where
  "item_ok (Single a) = True"
| "item_ok (Span a b) = (a < b)"

fun ascending :: "item list \<Rightarrow> bool" where
  "ascending [] = True"
| "ascending [i] = item_ok i"
| "ascending (i # j # r) = (item_ok i \<and> item_hi i + 1 < item_lo j \<and> ascending (j # r))"

text \<open>The label that stands for a canonical integer of a component: the decimal
  numeral for minute, hour and day of month, the month name at position \<open>n - 1\<close>, the
  weekday name at position \<open>n\<close>.\<close>

fun canonical_label :: "dimension \<Rightarrow> int \<Rightarrow> string" where
  "canonical_label Minute n = str_int n"
| "canonical_label Hour n = str_int n"
| "canonical_label Day n = str_int n"
| "canonical_label Month n = month_names ! nat (n - 1)"
| "canonical_label Day_of_week n = day_of_week_names ! nat n"

text \<open>The canonical integers of a component: 0 to 60 for the minute, 0 to 24 for the
  hour, 1 to 31 for the day of month, 1 to 12 for the month, 0 to 6 for the weekday.\<close>

fun canonical_domain :: "dimension \<Rightarrow> int set" where
  "canonical_domain Minute = {0..60}"
| "canonical_domain Hour = {0..24}"
| "canonical_domain Day = {1..31}"
| "canonical_domain Month = {1..12}"
| "canonical_domain Day_of_week = {0..6}"

text \<open>The selections of the first end-to-end scenario, in the order in which the
  full ranges and the weekday buttons list them.\<close>

definition scenario1 :: ScheduleConfig where
  "scenario1 = \<lparr>minute = [''0'', ''30''], hour = [''9''], day = str_range 1 32,
     month = month_names,
     day_of_week = [''Monday'', ''Tuesday'', ''Wednesday'', ''Thursday'', ''Friday'']\<rparr>"

text \<open>The same selections made by toggle events, in another order and with a weekday
  selected and deselected on the way.\<close>

definition scenario1_events :: "(dimension \<times> string) list" where
  "scenario1_events = [(Minute, ''minute_30''), (Minute, ''minute_0''), (Hour, ''hour_9''),
     (Day, ''0''), (Month, ''0''), (Day_of_week, ''Friday''), (Day_of_week, ''Monday''),
     (Day_of_week, ''Tuesday''), (Day_of_week, ''Sunday''), (Day_of_week, ''Wednesday''),
     (Day_of_week, ''Thursday''), (Day_of_week, ''Sunday'')]"


text \<open>The toggle tokens of the hour buttons, \<open>hour_0\<close> to \<open>hour_23\<close>.\<close>

definition hour_tokens :: "string list" where
  "hour_tokens = map (\<lambda>n. ''hour_'' @ str_int (int n)) [0..<24]"

text \<open>The invariant of one selection list: only labels of the component's full range,
  none of them twice.\<close>

definition selection_ok :: "ScheduleConfig \<Rightarrow> dimension \<Rightarrow> bool" where
  "selection_ok c d = (distinct (getattr c d) \<and> set (getattr c d) \<subseteq> set (full_range_dict d))"

subsection \<open>Commit handlers\<close>

text \<open>What the handlers read from outside: whether the backend answers
  \<^verbatim>\<open>create_cron_schedule\<close> with a truthy response (an empty dictionary stands for a
  timeout, a transport failure or a rejection), whether a path exists, and the
  description that \<^verbatim>\<open>cron_descriptor.get_description\<close> gives for a cron string,
  \<open>None\<close> when it raises.\<close>

record world =
  create_cron_schedule :: "int \<Rightarrow> int \<Rightarrow> string \<Rightarrow> string \<Rightarrow> bool"
  path_exists :: "string \<Rightarrow> bool"
  get_description :: "string \<Rightarrow> string option"

text \<open>The session dictionary after \<^verbatim>\<open>start\<close> and \<^verbatim>\<open>device_actions_list\<close> stored their
  keys.  The schedule entry may be \<^verbatim>\<open>None\<close>.\<close>

record user_data =
  schedule_info :: ScheduleConfig
  schedule_entry :: "ScheduleEntry option"
  selected_device_name :: string

text \<open>What a handler does to the outside, in order: answering the query, replacing the
  text of the message, posting a schedule to the backend.  The summary menu is a
  description and the presence of the commit button; the message of an immediate play
  carries the device name (its time stamp is left out).\<close>

datatype effect =
    Answer
  | Edit_message_text string
  | Post_schedule int int string string
  | Summary_menu string bool
  | Immediate_play_message string

datatype handler_result =
    ConversationHandler_END
  | SCHEDULE_PLAY_MENU
  | RECORD_OR_UPLOAD_SOUND_MENU
  | Result_None
  | Raised error



text \<open>\<^verbatim>\<open>set_for_play_now\<close>.  The first checks return; the check of the file and the
  check of the two identifiers only send a message and set the result, and the
  handler goes on.\<close>

definition set_for_play_now ::
  "world \<Rightarrow> user_data \<Rightarrow> handler_result \<times> user_data \<times> effect list" where
  "set_for_play_now w ud =
     (case schedule_entry ud of
        None \<Rightarrow> (ConversationHandler_END, ud, [Answer])
      | Some entry \<Rightarrow>
          (case sound_file_path entry of
             None \<Rightarrow> (ConversationHandler_END, ud, [Answer])
           | Some path \<Rightarrow>
               if path = [] then (ConversationHandler_END, ud, [Answer])
               else
                 (let missing = \<not> path_exists w path;
                      no_ids = (user_id entry = 0 \<or> device_id entry = 0);
                      result = (if missing \<or> no_ids then ConversationHandler_END
                                else Result_None);
                      said = [Answer]
                        @ (if missing then [Edit_message_text ''Sound file does not exist'']
                           else [])
                        @ (if no_ids then [Edit_message_text ''User ID or Device ID not set'']
                           else []);
                      entry1 = entry\<lparr>cron_string := ''0 0 0 0 0''\<rparr>;
                      post = Post_schedule (device_id entry1) (user_id entry1)
                               (cron_string entry1) path
                  in if create_cron_schedule w (device_id entry1) (user_id entry1)
                          (cron_string entry1) path
                     then (RECORD_OR_UPLOAD_SOUND_MENU,
                           ud\<lparr>schedule_entry := Some (entry1\<lparr>cron_string := ''''\<rparr>)\<rparr>,
                           said @ [post, Immediate_play_message (selected_device_name ud)])
                     else (result, ud\<lparr>schedule_entry := Some entry1\<rparr>,
                           said @ [post,
                             Edit_message_text ''Failed to create immediate schedule'']))))"

text \<open>The persistence calls among the effects of a handler.\<close>

fun is_post :: "effect \<Rightarrow> bool" where
  "is_post (Post_schedule _ _ _ _) = True"
| "is_post _ = False"

definition posts :: "effect list \<Rightarrow> effect list" where
  "posts effs = filter is_post effs"

text \<open>A session ready for a commit: the selections of the first scenario, an entry with
  its device, its user and a sound file, no cron string yet.\<close>

definition ready_session :: user_data where
  "ready_session =
     \<lparr>schedule_info = scenario1,
      schedule_entry = Some \<lparr>device_id = 1, user_id = 42, cron_string = '''',
                             sound_file_path = Some ''/shared/sound.mp3''\<rparr>,
      selected_device_name = ''clock''\<rparr>"

text \<open>Backends that accept or refuse every schedule, with the sound file present or
  missing.\<close>

definition backend :: "bool \<Rightarrow> bool \<Rightarrow> world" where
  "backend accepts file_present =
     \<lparr>create_cron_schedule = (\<lambda>device user cron path. accepts),
      path_exists = (\<lambda>path. file_present),
      get_description = (\<lambda>cron. Some cron)\<rparr>"


section \<open>Properties\<close>

lemma is_digit_digit_char: "d < 10 \<Longrightarrow> is_digit (digit_char d)"
  by (simp add: is_digit_def digit_char_def)

lemma digit_val_digit_char: "d < 10 \<Longrightarrow> digit_val (digit_char d) = d"
  by (simp add: digit_val_def digit_char_def)

lemma str_nat_digits: "c \<in> set (str_nat n) \<Longrightarrow> is_digit c"
proof (induction n arbitrary: c rule: str_nat.induct)
  case (1 n)
  show ?case
  proof (cases "n < 10")
    case True
    with "1.prems" show ?thesis by (simp add: str_nat.simps [of n] is_digit_digit_char)
  next
    case False
    with "1.prems" "1.IH" show ?thesis
      by (auto simp: str_nat.simps [of n] is_digit_digit_char)
  qed
qed

lemma str_nat_nonempty: "str_nat n \<noteq> []"
  by (subst str_nat.simps) simp

lemma digits_val_snoc: "digits_val (ds @ [c]) = 10 * digits_val ds + digit_val c"
  by (simp add: digits_val_def)

lemma digits_val_str_nat: "digits_val (str_nat n) = n"
proof (induction n rule: str_nat.induct)
  case (1 n)
  show ?case
  proof (cases "n < 10")
    case True
    then show ?thesis
      by (simp add: str_nat.simps [of n] digits_val_def digit_val_digit_char)
  next
    case False
    with "1.IH" show ?thesis
      by (simp add: str_nat.simps [of n] digits_val_snoc digit_val_digit_char)
  qed
qed

lemma takeWhile_stops: "stops rest \<Longrightarrow> takeWhile is_digit rest = []"
  by (cases rest) (simp_all add: stops_def)

lemma dropWhile_stops: "stops rest \<Longrightarrow> dropWhile is_digit rest = rest"
  by (cases rest) (simp_all add: stops_def)

lemma read_nat_str_nat:
  assumes "stops rest"
  shows "read_nat (str_nat n @ rest) = Some (n, rest)"
proof -
  have all: "\<forall>c\<in>set (str_nat n). is_digit c" using str_nat_digits by blast
  have tw: "takeWhile is_digit (str_nat n @ rest) = str_nat n"
    using all assms by (simp add: takeWhile_append2 takeWhile_stops)
  have dw: "dropWhile is_digit (str_nat n @ rest) = rest"
    using all assms by (simp add: dropWhile_append2 dropWhile_stops)
  show ?thesis
    by (simp add: read_nat_def tw dw str_nat_nonempty digits_val_str_nat)
qed

lemma minus_not_digit: "\<not> is_digit CHR ''-''"
  by (simp add: is_digit_def)

lemma comma_not_digit: "\<not> is_digit CHR '',''"
  by (simp add: is_digit_def)

lemma hd_str_nat_digit: "\<exists>c t. str_nat n = c # t \<and> is_digit c"
proof -
  obtain c t where ct: "str_nat n = c # t"
    using str_nat_nonempty [of n] by (cases "str_nat n") auto
  then have "is_digit c" using str_nat_digits [of c n] by simp
  with ct show ?thesis by blast
qed

lemma read_int_str_int:
  assumes "stops rest"
  shows "read_int (str_int a @ rest) = Some (a, rest)"
proof (cases "a < 0")
  case True
  then show ?thesis
    using read_nat_str_nat [OF assms, of "nat (- a)"]
    by (simp add: read_int_def str_int_def)
next
  case False
  obtain c t where ct: "str_nat (nat a) = c # t" and dc: "is_digit c"
    using hd_str_nat_digit by blast
  then have "c \<noteq> CHR ''-''" using minus_not_digit by auto
  with False ct show ?thesis
    using read_nat_str_nat [OF assms, of "nat a"]
    by (simp add: read_int_def str_int_def)
qed

lemma stops_Nil: "stops []"
  by (simp add: stops_def)

lemma stops_minus: "stops (CHR ''-'' # t)"
  by (simp add: stops_def minus_not_digit)

lemma expand_fragment_item_str: "expand_fragment (item_str i) = Some (cover i)"
proof (cases i)
  case (Single a)
  then show ?thesis
    using read_int_str_int [OF stops_Nil, of a] by (simp add: expand_fragment_def)
next
  case (Span a b)
  then show ?thesis
    using read_int_str_int [OF stops_minus, of a "str_int b"]
      read_int_str_int [OF stops_Nil, of b]
    by (simp add: expand_fragment_def)
qed

lemma str_int_chars: "c \<in> set (str_int a) \<Longrightarrow> c = CHR ''-'' \<or> is_digit c"
  by (auto simp: str_int_def dest: str_nat_digits split: if_splits)

lemma str_int_nonempty: "str_int a \<noteq> []"
  by (simp add: str_int_def str_nat_nonempty)

lemma item_str_no_comma: "CHR '','' \<notin> set (item_str i)"
proof (cases i)
  case (Single a)
  then show ?thesis using str_int_chars [of "CHR '',''" a] comma_not_digit by auto
next
  case (Span a b)
  then show ?thesis
    using str_int_chars [of "CHR '',''" a] str_int_chars [of "CHR '',''" b] comma_not_digit
    by auto
qed

lemma item_str_nonempty: "item_str i \<noteq> []"
  by (cases i) (simp_all add: str_int_nonempty)

lemma last_item_str: "last (item_str i) \<noteq> CHR '',''"
proof -
  have "last (item_str i) \<in> set (item_str i)"
    using item_str_nonempty by simp
  then show ?thesis using item_str_no_comma by metis
qed

lemma fmt_item_eq: "fmt_item i = item_str i @ '',''"
  by (cases i) simp_all

lemma foldl_append_acc:
  "foldl (\<lambda>out i. out @ f i) acc items = acc @ concat (map f items)"
  by (induction items arbitrary: acc) simp_all

lemma render_items_concat: "render_items items = concat (map fmt_item items)"
  by (simp add: render_items_def foldl_append_acc)

lemma concat_fmt_join:
  "items \<noteq> [] \<Longrightarrow> concat (map fmt_item items) = join_items items @ '',''"
  by (induction items rule: join_items.induct) (simp_all add: fmt_item_eq)

lemma join_items_nonempty: "items \<noteq> [] \<Longrightarrow> join_items items \<noteq> []"
  by (induction items rule: join_items.induct) (simp_all add: item_str_nonempty)

lemma last_join_items: "items \<noteq> [] \<Longrightarrow> last (join_items items) \<noteq> CHR '',''"
  by (induction items rule: join_items.induct)
     (simp_all add: last_item_str join_items_nonempty)

lemma rstrip_keep: "s \<noteq> [] \<Longrightarrow> last s \<noteq> c \<Longrightarrow> rstrip c (s @ [c]) = s"
proof -
  assume ne: "s \<noteq> []" and l: "last s \<noteq> c"
  then obtain t x where s: "s = t @ [x]" and x: "x \<noteq> c"
    by (metis append_butlast_last_id)
  show ?thesis by (simp add: rstrip_def s x)
qed

lemma rstrip_render:
  "items \<noteq> [] \<Longrightarrow> rstrip CHR '','' (render_items items) = join_items items"
  using rstrip_keep [of "join_items items" "CHR '',''"]
  by (simp add: render_items_concat concat_fmt_join join_items_nonempty last_join_items)

lemma split_str_no_sep: "sep \<notin> set f \<Longrightarrow> split_str sep f = [f]"
  by (induction f) (auto split: list.splits)

lemma split_str_append:
  "sep \<notin> set f \<Longrightarrow> split_str sep (f @ sep # rest) = f # split_str sep rest"
  by (induction f) (auto split: list.splits)

lemma split_join_items:
  "items \<noteq> [] \<Longrightarrow> split_str CHR '','' (join_items items) = map item_str items"
proof (induction items rule: join_items.induct)
  case 1
  then show ?case by simp
next
  case (2 i)
  then show ?case by (simp add: split_str_no_sep item_str_no_comma)
next
  case (3 i j r)
  then show ?case
    using split_str_append [of "CHR '',''" "item_str i" "join_items (j # r)"]
    by (simp add: item_str_no_comma)
qed

lemma union_all_items:
  "union_all (map expand_fragment (map item_str items)) = Some (\<Union> (cover ` set items))"
  by (induction items) (simp_all add: expand_fragment_item_str)

lemma expand_rendered:
  "items \<noteq> [] \<Longrightarrow>
   expand_token (rstrip CHR '','' (render_items items)) = Some (\<Union> (cover ` set items))"
  by (simp add: expand_token_def rstrip_render split_join_items union_all_items del: map_map)

lemma cover_flush: "s \<le> e \<Longrightarrow> cover (flush s e) = {s..e}"
  by (auto simp: flush_def)

lemma scan_numbers_cover:
  "s \<le> e \<Longrightarrow>
   \<Union> (cover ` set (scan_numbers s e acc ns)) = \<Union> (cover ` set acc) \<union> {s..e} \<union> set ns"
proof (induction ns arbitrary: s e acc)
  case Nil
  then show ?case by (simp add: cover_flush Un_commute)
next
  case (Cons n ns)
  show ?case
  proof (cases "n = e + 1")
    case True
    have "s \<le> n" using Cons.prems True by simp
    from Cons.IH [OF this, of acc] True Cons.prems show ?thesis
      by auto
  next
    case False
    have "n \<le> n" by simp
    from Cons.IH [OF this, of "acc @ [flush s e]"] False Cons.prems show ?thesis
      by (auto simp: cover_flush)
  qed
qed

lemma scan_numbers_nonempty: "scan_numbers s e acc ns \<noteq> []"
  by (induction ns arbitrary: s e acc) simp_all

text \<open>C1.  Round trip of the range compressor: for every non-empty list of integers,
  with or without repetitions, splitting the token at the commas and reading each
  fragment back (\<open>a\<close> as the singleton, \<open>a-b\<close> as the range from \<open>a\<close> to \<open>b\<close>) gives
  exactly the set of the integers.\<close>

theorem compress_round_trip:
  "numbers \<noteq> [] \<Longrightarrow> expand_token (bld_cron_token_from_num_list numbers) = Some (set numbers)"
proof -
  assume ne: "numbers \<noteq> []"
  then have "sort numbers \<noteq> []" by (metis length_0_conv length_sort)
  then obtain x rest where xs: "sort numbers = x # rest" by (cases "sort numbers") auto
  have "set (x # rest) = set numbers" using xs by (metis set_sort)
  have cov: "\<Union> (cover ` set (scan_numbers x x [] rest)) = set numbers"
    using scan_numbers_cover [of x x "[]" rest] \<open>set (x # rest) = set numbers\<close> by auto
  show ?thesis
    using ne expand_rendered [OF scan_numbers_nonempty, of x x "[]" rest]
    by (simp add: bld_cron_token_from_num_list_def xs cov)
qed

theorem compress_round_trip_witness:
  "[0, 1, 2, 5, 7, 8, 9] \<noteq> ([] :: int list) \<and>
   bld_cron_token_from_num_list [0, 1, 2, 5, 7, 8, 9] = ''0-2,5,7-9'' \<and>
   expand_token ''0-2,5,7-9'' = Some {0, 1, 2, 5, 7, 8, 9}"
proof -
  have t: "bld_cron_token_from_num_list [0, 1, 2, 5, 7, 8, 9] = ''0-2,5,7-9''"
    by code_simp
  have "expand_token (bld_cron_token_from_num_list [0, 1, 2, 5, 7, 8, 9])
          = Some (set [0, 1, 2, 5, 7, 8, 9])"
    using compress_round_trip [of "[0, 1, 2, 5, 7, 8, 9]"] by simp
  then show ?thesis using t by simp
qed

subsection \<open>Shape of a compressed token\<close>

lemma item_flush [simp]:
  "item_lo (flush s e) = s" "item_hi (flush s e) = e" "s \<le> e \<Longrightarrow> item_ok (flush s e)"
  by (auto simp: flush_def)

lemma ascending_snoc:
  "ascending acc \<Longrightarrow> item_ok i \<Longrightarrow> (acc = [] \<or> item_hi (last acc) + 1 < item_lo i) \<Longrightarrow>
   ascending (acc @ [i])"
  by (induction acc rule: ascending.induct) auto

lemma scan_numbers_ascending:
  "sorted_wrt (<) (e # ns) \<Longrightarrow> s \<le> e \<Longrightarrow> ascending acc \<Longrightarrow>
   (acc = [] \<or> item_hi (last acc) + 1 < s) \<Longrightarrow> ascending (scan_numbers s e acc ns)"
proof (induction ns arbitrary: s e acc)
  case Nil
  then show ?case by (simp add: ascending_snoc)
next
  case (Cons n ns)
  have en: "e < n" and rest: "sorted_wrt (<) (n # ns)" using Cons.prems(1) by auto
  show ?case
  proof (cases "n = e + 1")
    case True
    have "s \<le> n" using Cons.prems(2) en by simp
    from Cons.IH [OF rest this Cons.prems(3) Cons.prems(4)] True show ?thesis by simp
  next
    case False
    have a: "ascending (acc @ [flush s e])"
      using Cons.prems by (simp add: ascending_snoc)
    have b: "acc @ [flush s e] = [] \<or> item_hi (last (acc @ [flush s e])) + 1 < n"
      using en False by simp
    from Cons.IH [OF rest order_refl a b] False show ?thesis by simp
  qed
qed

lemma compress_shape:
  assumes "numbers \<noteq> []" and "distinct numbers"
  shows "\<exists>items. bld_cron_token_from_num_list numbers = join_items items \<and> items \<noteq> [] \<and>
           ascending items \<and> \<Union> (cover ` set items) = set numbers"
proof -
  have "sort numbers \<noteq> []" using assms(1) by (metis length_0_conv length_sort)
  then obtain x rest where xs: "sort numbers = x # rest" by (cases "sort numbers") auto
  have st: "sorted_wrt (<) (x # rest)"
    using assms(2) xs by (metis distinct_sort sorted_sort strict_sorted_iff)
  have sx: "set (x # rest) = set numbers" using xs by (metis set_sort)
  let ?items = "scan_numbers x x [] rest"
  have "bld_cron_token_from_num_list numbers = join_items ?items"
    using assms(1) by (simp add: bld_cron_token_from_num_list_def xs rstrip_render scan_numbers_nonempty)
  moreover have "ascending ?items"
    using scan_numbers_ascending [OF st order_refl, of "[]"] by simp
  moreover have "\<Union> (cover ` set ?items) = set numbers"
    using scan_numbers_cover [of x x "[]" rest] sx by auto
  ultimately show ?thesis using scan_numbers_nonempty by blast
qed

lemma item_str_chars: "c \<in> set (item_str i) \<Longrightarrow> c = CHR ''-'' \<or> is_digit c"
  by (cases i) (auto dest: str_int_chars)

lemma join_items_chars:
  "c \<in> set (join_items items) \<Longrightarrow> c = CHR ''-'' \<or> c = CHR '','' \<or> is_digit c"
  by (induction items rule: join_items.induct) (auto dest: item_str_chars)

lemma star_not_digit: "\<not> is_digit CHR ''*''"
  by (simp add: is_digit_def)

lemma join_items_not_star: "join_items items \<noteq> ''*''"
proof
  assume "join_items items = ''*''"
  then have "CHR ''*'' \<in> set (join_items items)" by simp
  from join_items_chars [OF this] show False by (simp add: star_not_digit)
qed

subsection \<open>Labels of the full ranges and their integers\<close>

lemma digit_not_space: "is_digit c \<Longrightarrow> \<not> py_isspace c"
  by (auto simp: is_digit_def py_isspace_def)

lemma strip_ws_digits:
  assumes "ds \<noteq> []" and "\<forall>c\<in>set ds. is_digit c"
  shows "strip_ws ds = ds"
proof -
  have h: "\<not> py_isspace (hd ds)" using assms digit_not_space by (cases ds) auto
  have l: "\<not> py_isspace (last ds)" using assms digit_not_space by simp
  have "dropWhile py_isspace ds = ds" using assms(1) h by (cases ds) auto
  moreover have "dropWhile py_isspace (rev ds) = rev ds"
    using assms(1) l by (cases "rev ds") (auto simp: last_rev hd_rev)
  ultimately show ?thesis by (simp add: strip_ws_def)
qed

lemma underscore_not_digit: "\<not> is_digit CHR ''_''"
  by (simp add: is_digit_def)

lemma plus_not_digit: "\<not> is_digit CHR ''+''"
  by (simp add: is_digit_def)

lemma valid_body_digits: "ds \<noteq> [] \<Longrightarrow> \<forall>c\<in>set ds. is_digit c \<Longrightarrow> valid_body ds"
  by (induction ds rule: valid_body.induct) (auto simp: underscore_not_digit)

lemma filter_digits: "\<forall>c\<in>set ds. is_digit c \<Longrightarrow> filter (\<lambda>c. c \<noteq> CHR ''_'') ds = ds"
  by (induction ds) (auto simp: underscore_not_digit)

lemma py_int_str_nat: "py_int (str_nat n) = Some (int n)"
proof -
  have all: "\<forall>c\<in>set (str_nat n). is_digit c" using str_nat_digits by blast
  obtain c t where ct: "str_nat n = c # t" and dc: "is_digit c"
    using hd_str_nat_digit by blast
  have sign: "c \<noteq> CHR ''-''" "c \<noteq> CHR ''+''"
    using dc minus_not_digit plus_not_digit by auto
  have st: "strip_ws (str_nat n) = c # t"
    using strip_ws_digits [OF str_nat_nonempty all] ct by simp
  have vb: "valid_body (c # t)"
    using valid_body_digits [OF str_nat_nonempty all] ct by simp
  have fl: "filter (\<lambda>c. c \<noteq> CHR ''_'') (c # t) = c # t"
    using filter_digits [OF all] ct by simp
  have dv: "digits_val (c # t) = n" using digits_val_str_nat [of n] ct by simp
  have "py_int (str_nat n) = Some (int (digits_val (filter (\<lambda>c. c \<noteq> CHR ''_'') (c # t))))"
    using sign vb by (simp add: py_int_def st del: filter.simps valid_body.simps)
  then show ?thesis by (simp only: fl dv)
qed

lemma py_int_str_int_nat: "py_int (str_int (int n)) = Some (int n)"
  by (simp add: str_int_def py_int_str_nat)

lemma int_list_map:
  "\<forall>x\<in>set xs. \<exists>n. py_int x = Some n \<Longrightarrow> int_list xs = Inr (map (\<lambda>x. the (py_int x)) xs)"
  by (induction xs) auto

lemma py_index_Some: "x \<in> set names \<Longrightarrow> \<exists>i. py_index names x = Some i \<and> i < length names \<and> names ! i = x"
  by (induction names) auto

lemma index_list_map:
  "set xs \<subseteq> set names \<Longrightarrow>
   index_list names k xs = Inr (map (\<lambda>x. int (the (py_index names x) + k)) xs)"
proof (induction xs)
  case Nil
  then show ?case by simp
next
  case (Cons x xs)
  then obtain i where "py_index names x = Some i" using py_index_Some [of x names] by auto
  with Cons show ?case by simp
qed

text \<open>The integer that the conversion gives for one label of a component.\<close>

lemma str_range_label:
  "x \<in> set (str_range a b) \<Longrightarrow> \<exists>n. py_int x = Some n \<and> str_int n = x"
  by (auto simp: str_range_def py_int_str_int_nat)

lemma numeric_labels:
  assumes "set xs \<subseteq> set (str_range a b)"
  shows "\<exists>ns. int_list xs = Inr ns \<and> map str_int ns = xs"
proof -
  have ex: "\<forall>x\<in>set xs. \<exists>n. py_int x = Some n \<and> str_int n = x"
    using assms str_range_label by blast
  then have "int_list xs = Inr (map (\<lambda>x. the (py_int x)) xs)"
    using int_list_map [of xs] by blast
  moreover have "map str_int (map (\<lambda>x. the (py_int x)) xs) = xs"
    using ex by (induction xs) auto
  ultimately show ?thesis by blast
qed

lemma named_labels:
  assumes "set xs \<subseteq> set names"
  shows "\<exists>ns. index_list names k xs = Inr ns \<and> map (\<lambda>n. names ! (nat n - k)) ns = xs"
proof -
  have "map (\<lambda>n. names ! (nat n - k)) (map (\<lambda>x. int (the (py_index names x) + k)) xs) = xs"
    using assms
  proof (induction xs)
    case Nil
    then show ?case by simp
  next
    case (Cons x xs)
    then obtain i where "py_index names x = Some i" "names ! i = x"
      using py_index_Some [of x names] by auto
    moreover have "nat (int i + int k) - k = i" by simp
    ultimately show ?case using Cons by simp
  qed
  then show ?thesis using index_list_map [OF assms, of k] by simp
qed

lemma nat_minus_one: "nat (n - 1) = nat n - 1"
  by simp

lemma canonical_label_numeric:
  "canonical_label Minute = str_int" "canonical_label Hour = str_int"
  "canonical_label Day = str_int"
  by (rule ext, simp)+

lemma canonical_label_named:
  "canonical_label Month = (\<lambda>n. month_names ! (nat n - 1))"
  "canonical_label Day_of_week = (\<lambda>n. day_of_week_names ! (nat n - 0))"
  by (rule ext, simp add: nat_minus_one del: nat_diff_distrib)+

lemma bld_num_list_labels:
  assumes "set xs \<subseteq> set (full_range_dict d)"
  shows "\<exists>ns. bld_num_list_methods d xs = Inr ns \<and> map (canonical_label d) ns = xs"
proof (cases d)
  case Minute
  then show ?thesis using numeric_labels [of xs 0 61] assms
    by (simp add: bld_num_list_minutes_def canonical_label_numeric)
next
  case Hour
  then show ?thesis using numeric_labels [of xs 0 25] assms
    by (simp add: bld_num_list_hours_def canonical_label_numeric)
next
  case Day
  then show ?thesis using numeric_labels [of xs 1 32] assms
    by (simp add: bld_num_list_day_of_months_def canonical_label_numeric)
next
  case Month
  then show ?thesis using named_labels [of xs month_names 1] assms
    by (simp only: bld_num_list_methods.simps bld_num_list_months_def full_range_dict.simps
        canonical_label_named)
next
  case Day_of_week
  then show ?thesis using named_labels [of xs day_of_week_names 0] assms
    by (simp only: bld_num_list_methods.simps bld_num_list_day_of_week_def
        full_range_dict.simps canonical_label_named)
qed

text \<open>The integers of labels of a full range lie in the canonical domain.\<close>

lemma numeric_bounds:
  assumes "set xs \<subseteq> set (str_range a b)" and "int_list xs = Inr ns"
  shows "\<forall>n\<in>set ns. int a \<le> n \<and> n < int b"
proof -
  have ex: "\<forall>x\<in>set xs. \<exists>i. a \<le> i \<and> i < b \<and> py_int x = Some (int i)"
    using assms(1) by (auto simp: str_range_def py_int_str_int_nat)
  then have "\<forall>x\<in>set xs. \<exists>n. py_int x = Some n" by blast
  then have "int_list xs = Inr (map (\<lambda>x. the (py_int x)) xs)" by (rule int_list_map)
  then have "ns = map (\<lambda>x. the (py_int x)) xs" using assms(2) by simp
  then show ?thesis using ex by auto
qed

lemma named_bounds:
  assumes "set xs \<subseteq> set names" and "index_list names k xs = Inr ns"
  shows "\<forall>n\<in>set ns. int k \<le> n \<and> n < int (length names + k)"
proof -
  have "ns = map (\<lambda>x. int (the (py_index names x) + k)) xs"
    using index_list_map [OF assms(1), of k] assms(2) by simp
  moreover have "\<forall>x\<in>set xs. \<exists>i. py_index names x = Some i \<and> i < length names"
    using assms(1) py_index_Some [of _ names] by blast
  ultimately show ?thesis by auto
qed

lemma bld_num_list_bounds:
  assumes "set xs \<subseteq> set (full_range_dict d)" and "bld_num_list_methods d xs = Inr ns"
  shows "set ns \<subseteq> canonical_domain d"
proof (cases d)
  case Minute
  then show ?thesis using numeric_bounds [of xs 0 61 ns] assms
    by (auto simp: bld_num_list_minutes_def)
next
  case Hour
  then show ?thesis using numeric_bounds [of xs 0 25 ns] assms
    by (auto simp: bld_num_list_hours_def)
next
  case Day
  then show ?thesis using numeric_bounds [of xs 1 32 ns] assms
    by (auto simp: bld_num_list_day_of_months_def)
next
  case Month
  have "length month_names = 12" by (simp add: month_names_def)
  then show ?thesis using Month named_bounds [of xs month_names 1 ns] assms
    by (auto simp: bld_num_list_months_def)
next
  case Day_of_week
  have "length day_of_week_names = 7" by (simp add: day_of_week_names_def)
  then show ?thesis using Day_of_week named_bounds [of xs day_of_week_names 0 ns] assms
    by (auto simp: bld_num_list_day_of_week_def)
qed

subsection \<open>Classification of the token of one component\<close>

lemma sort_eq_iff_mset: "sort xs = sort ys \<longleftrightarrow> mset xs = mset ys"
proof
  assume "sort xs = sort ys"
  then have "mset (sort xs) = mset (sort ys)" by simp
  then show "mset xs = mset ys" by simp
next
  assume "mset xs = mset ys"
  then show "sort xs = sort ys"
    by (metis mset_sort properties_for_sort sorted_sort)
qed

lemma sort_eq_iff_set:
  "distinct xs \<Longrightarrow> distinct ys \<Longrightarrow> sort xs = sort ys \<longleftrightarrow> set xs = set ys"
  by (simp add: sort_eq_iff_mset set_eq_iff_mset_eq_distinct)

lemma inj_str_int_nat: "inj_on (\<lambda>i. str_int (int i)) A"
proof (rule inj_onI)
  fix x y assume "str_int (int x) = str_int (int y)"
  then have "py_int (str_int (int x)) = py_int (str_int (int y))" by simp
  then show "x = y" by (simp add: py_int_str_int_nat)
qed

lemma distinct_str_range: "distinct (str_range a b)"
  by (simp add: str_range_def distinct_map inj_str_int_nat)

lemma distinct_month_names: "distinct month_names"
  by (simp add: month_names_def)

lemma distinct_day_of_week_names: "distinct day_of_week_names"
  by (simp add: day_of_week_names_def)

lemma distinct_full_range: "distinct (full_range_dict d)"
  by (cases d) (simp_all add: distinct_str_range distinct_month_names distinct_day_of_week_names)

lemma full_range_nonempty: "full_range_dict d \<noteq> []"
  by (cases d) (simp_all add: str_range_def month_names_def day_of_week_names_def)

lemma distinct_of_map: "distinct (map f xs) \<Longrightarrow> distinct xs"
  by (simp add: distinct_map)

text \<open>C2.  For every component and every duplicate-free selection over its full range:
  the token is \<open>*\<close> exactly when the selection, as a set, is the full range; it is
  \<open>not set\<close> for the empty selection; otherwise it is the comma-joined list of the
  fragments that cover exactly the canonical integers of the selected labels (integers
  of the component's canonical domain, each the integer of its label), in ascending
  order, no boundary repeated.\<close>

theorem token_classification:
  assumes "distinct (getattr c d)" and "set (getattr c d) \<subseteq> set (full_range_dict d)"
  shows "(bld_cron_token_schedule_info c d = Inr ''*'' \<longleftrightarrow>
            set (getattr c d) = set (full_range_dict d)) \<and>
         (getattr c d = [] \<longrightarrow> bld_cron_token_schedule_info c d = Inr ''not set'') \<and>
         (getattr c d \<noteq> [] \<and> set (getattr c d) \<noteq> set (full_range_dict d) \<longrightarrow>
            (\<exists>numbers items.
               map (canonical_label d) numbers = getattr c d \<and>
               set numbers \<subseteq> canonical_domain d \<and>
               bld_cron_token_schedule_info c d = Inr (join_items items) \<and>
               ascending items \<and> \<Union> (cover ` set items) = set numbers))"
proof -
  let ?sel = "getattr c d"
  obtain ns where ns: "bld_num_list_methods d ?sel = Inr ns"
    and lab: "map (canonical_label d) ns = ?sel"
    using bld_num_list_labels [OF assms(2)] by blast
  have full: "sort ?sel = sort (full_range_dict d) \<longleftrightarrow> set ?sel = set (full_range_dict d)"
    using sort_eq_iff_set [OF assms(1) distinct_full_range] .
  have other: "set ?sel \<noteq> set (full_range_dict d) \<Longrightarrow>
      bld_cron_token_schedule_info c d = Inr (bld_cron_token_from_num_list ns)"
    using full ns by (simp add: bld_cron_token_schedule_info_def)
  have dom: "set ns \<subseteq> canonical_domain d" using bld_num_list_bounds [OF assms(2) ns] .
  have dist: "distinct ns" using assms(1) lab distinct_of_map [of "canonical_label d" ns] by simp
  have empty: "?sel = [] \<Longrightarrow> bld_cron_token_schedule_info c d = Inr ''not set''"
  proof -
    assume e: "?sel = []"
    then have "ns = []" using lab by simp
    moreover have "set ?sel \<noteq> set (full_range_dict d)" using e full_range_nonempty by simp
    ultimately show ?thesis using other by (simp add: bld_cron_token_from_num_list_def)
  qed
  have shape: "?sel \<noteq> [] \<Longrightarrow> set ?sel \<noteq> set (full_range_dict d) \<Longrightarrow>
      \<exists>items. bld_cron_token_schedule_info c d = Inr (join_items items) \<and>
        ascending items \<and> \<Union> (cover ` set items) = set ns"
  proof -
    assume ne: "?sel \<noteq> []" and nf: "set ?sel \<noteq> set (full_range_dict d)"
    have "ns \<noteq> []" using ne lab by auto
    from compress_shape [OF this dist] other [OF nf] show ?thesis by auto
  qed
  have star: "bld_cron_token_schedule_info c d = Inr ''*'' \<longleftrightarrow>
      set ?sel = set (full_range_dict d)"
  proof
    assume s: "bld_cron_token_schedule_info c d = Inr ''*''"
    show "set ?sel = set (full_range_dict d)"
    proof (rule ccontr)
      assume nf: "set ?sel \<noteq> set (full_range_dict d)"
      show False
      proof (cases "?sel = []")
        case True
        with empty s show False by simp
      next
        case False
        from shape [OF False nf] obtain items
          where "bld_cron_token_schedule_info c d = Inr (join_items items)" by blast
        with s have "join_items items = ''*''" by simp
        then show False using join_items_not_star by blast
      qed
    qed
  next
    assume "set ?sel = set (full_range_dict d)"
    then show "bld_cron_token_schedule_info c d = Inr ''*''"
      using full by (simp add: bld_cron_token_schedule_info_def)
  qed
  show ?thesis using star empty shape lab dom by blast
qed

theorem token_classification_witness:
  "distinct (getattr scenario1 Day_of_week) \<and>
   set (getattr scenario1 Day_of_week) \<subseteq> set (full_range_dict Day_of_week) \<and>
   getattr scenario1 Day_of_week \<noteq> [] \<and>
   set (getattr scenario1 Day_of_week) \<noteq> set (full_range_dict Day_of_week) \<and>
   bld_cron_token_schedule_info scenario1 Day_of_week \<noteq> Inr ''*'' \<and>
   bld_cron_token_schedule_info scenario1 Day_of_week = Inr (join_items [Span 1 5])"
proof -
  have d: "distinct (getattr scenario1 Day_of_week)"
    by (simp add: scenario1_def)
  have s: "set (getattr scenario1 Day_of_week) \<subseteq> set (full_range_dict Day_of_week)"
    by (simp add: scenario1_def day_of_week_names_def)
  have "''Sunday'' \<in> set (full_range_dict Day_of_week)"
    by (simp add: day_of_week_names_def)
  moreover have "''Sunday'' \<notin> set (getattr scenario1 Day_of_week)"
    by (simp add: scenario1_def)
  ultimately have n: "set (getattr scenario1 Day_of_week) \<noteq> set (full_range_dict Day_of_week)"
    by blast
  have e: "getattr scenario1 Day_of_week \<noteq> []"
    by (simp add: scenario1_def)
  have t: "bld_cron_token_schedule_info scenario1 Day_of_week = Inr (join_items [Span 1 5])"
    by code_simp
  from token_classification [OF d s] n
  have "bld_cron_token_schedule_info scenario1 Day_of_week \<noteq> Inr ''*''" by blast
  then show ?thesis using d s n e t by blast
qed

subsection \<open>Assembly of the cron string\<close>

lemma int_list_cases:
  "int_list xs = (if \<forall>x\<in>set xs. py_int x \<noteq> None
                  then Inr (map (\<lambda>x. the (py_int x)) xs) else Inl ValueError)"
  by (induction xs) (auto split: option.splits)

lemma index_list_cases:
  "index_list names k xs =
     (if \<forall>x\<in>set xs. py_index names x \<noteq> None
      then Inr (map (\<lambda>x. int (the (py_index names x) + k)) xs) else Inl ValueError)"
  by (induction xs) (auto split: option.splits)

lemma bld_num_list_cases:
  "\<exists>ok f. \<forall>xs. bld_num_list_methods d xs =
     (if \<forall>x\<in>set xs. ok x then Inr (map f xs) else Inl ValueError)"
proof -
  have num: "\<exists>ok f. \<forall>xs. int_list xs =
      (if \<forall>x\<in>set xs. ok x then Inr (map f xs) else Inl ValueError)"
    by (intro exI [of _ "\<lambda>x. py_int x \<noteq> None"] exI [of _ "\<lambda>x. the (py_int x)"])
       (simp add: int_list_cases)
  have nam: "\<exists>ok f. \<forall>xs. index_list names k xs =
      (if \<forall>x\<in>set xs. ok x then Inr (map f xs) else Inl ValueError)" for names k
    by (intro exI [of _ "\<lambda>x. py_index names x \<noteq> None"]
          exI [of _ "\<lambda>x. int (the (py_index names x) + k)"])
       (simp add: index_list_cases)
  show ?thesis
  proof (cases d)
    case Minute
    then show ?thesis using num by (simp add: bld_num_list_minutes_def)
  next
    case Hour
    then show ?thesis using num by (simp add: bld_num_list_hours_def)
  next
    case Day
    then show ?thesis using num by (simp add: bld_num_list_day_of_months_def)
  next
    case Month
    then show ?thesis using nam [of month_names 1] by (simp add: bld_num_list_months_def)
  next
    case Day_of_week
    then show ?thesis using nam [of day_of_week_names 0]
      by (simp add: bld_num_list_day_of_week_def)
  qed
qed

lemma compress_mset:
  assumes "mset ns = mset ms"
  shows "bld_cron_token_from_num_list ns = bld_cron_token_from_num_list ms"
proof -
  have "sort ns = sort ms" using assms by (simp add: sort_eq_iff_mset)
  moreover have "ns = [] \<longleftrightarrow> ms = []" using assms by (metis mset_zero_iff)
  ultimately show ?thesis by (simp add: bld_cron_token_from_num_list_def)
qed

lemma token_mset_cong:
  assumes "mset (getattr c d) = mset (getattr c' d)"
  shows "bld_cron_token_schedule_info c d = bld_cron_token_schedule_info c' d"
proof -
  let ?xs = "getattr c d" and ?ys = "getattr c' d"
  obtain ok f where m: "\<And>xs. bld_num_list_methods d xs =
      (if \<forall>x\<in>set xs. ok x then Inr (map f xs) else Inl ValueError)"
    using bld_num_list_cases [of d] by blast
  have s: "sort ?xs = sort ?ys" using assms by (simp add: sort_eq_iff_mset)
  have st: "set ?xs = set ?ys" using assms by (metis set_mset_mset)
  have "mset (map f ?xs) = mset (map f ?ys)" using assms by (metis mset_map)
  then have t: "bld_cron_token_from_num_list (map f ?xs) = bld_cron_token_from_num_list (map f ?ys)"
    by (rule compress_mset)
  show ?thesis
    unfolding bld_cron_token_schedule_info_def Let_def s m [of ?xs] m [of ?ys] st
    using t by simp
qed

lemma cron_loop_cong:
  "(\<And>d. d \<in> set keys \<Longrightarrow> bld_cron_token_schedule_info c d = bld_cron_token_schedule_info c' d) \<Longrightarrow>
   cron_loop c acc keys = cron_loop c' acc keys"
  by (induction keys arbitrary: acc) (simp_all split: sum.splits)

lemma build_cron_string_cong:
  "(\<And>d. d \<in> set keys \<Longrightarrow> mset (getattr c d) = mset (getattr c' d)) \<Longrightarrow>
   build_cron_string c keys = build_cron_string c' keys"
  using cron_loop_cong [of keys c c' "[]"] token_mset_cong [of c _ c']
  by (simp add: build_cron_string_def)

lemma scenario1_cron: "build_cron_string scenario1 button_keys = Inr ''0,30 9 * * 1-5''"
  by code_simp

text \<open>C5.  End to end: when the minute selection is \<open>{0, 30}\<close>, the hour selection
  \<open>{9}\<close>, the day selection the full range 1..31, the month selection all twelve
  names and the weekday selection Monday to Friday, in whatever order the labels were
  selected, the five tokens joined by single spaces in the order minute, hour, day,
  month, day of week are \<open>0,30 9 * * 1-5\<close>.\<close>

theorem cron_assembly:
  assumes "distinct (minute c)" and "set (minute c) = {''0'', ''30''}"
    and "distinct (hour c)" and "set (hour c) = {''9''}"
    and "distinct (day c)" and "set (day c) = set (full_range_dict Day)"
    and "distinct (month c)" and "set (month c) = set month_names"
    and "distinct (day_of_week c)"
    and "set (day_of_week c) = {''Monday'', ''Tuesday'', ''Wednesday'', ''Thursday'', ''Friday''}"
  shows "build_cron_string c button_keys = Inr ''0,30 9 * * 1-5''"
proof -
  have mi: "mset (minute c) = mset (minute scenario1)"
    using assms(1,2) by (subst set_eq_iff_mset_eq_distinct [symmetric]) (simp_all add: scenario1_def)
  have ho: "mset (hour c) = mset (hour scenario1)"
    using assms(3,4) by (subst set_eq_iff_mset_eq_distinct [symmetric]) (simp_all add: scenario1_def)
  have da: "mset (day c) = mset (day scenario1)"
    using assms(5,6)
    by (subst set_eq_iff_mset_eq_distinct [symmetric])
       (simp_all add: scenario1_def distinct_str_range del: One_nat_def)
  have mo: "mset (month c) = mset (month scenario1)"
    using assms(7,8)
    by (subst set_eq_iff_mset_eq_distinct [symmetric]) (simp_all add: scenario1_def distinct_month_names)
  have dw: "mset (day_of_week c) = mset (day_of_week scenario1)"
    using assms(9,10) by (subst set_eq_iff_mset_eq_distinct [symmetric]) (simp_all add: scenario1_def)
  have "mset (getattr c d) = mset (getattr scenario1 d)" for d
    using mi ho da mo dw by (cases d) simp_all
  then have "build_cron_string c button_keys = build_cron_string scenario1 button_keys"
    by (rule build_cron_string_cong)
  then show ?thesis by (simp only: scenario1_cron)
qed

lemma scenario1_run:
  "run_toggles scenario1_events new_ScheduleConfig =
     \<lparr>minute = [''30'', ''0''], hour = [''9''], day = full_range_dict Day, month = month_names,
      day_of_week = [''Friday'', ''Monday'', ''Tuesday'', ''Wednesday'', ''Thursday'']\<rparr>"
  by code_simp

theorem cron_assembly_witness:
  "build_cron_string (run_toggles scenario1_events new_ScheduleConfig) button_keys
     = Inr ''0,30 9 * * 1-5''"
proof -
  let ?c = "run_toggles scenario1_events new_ScheduleConfig"
  have 1: "distinct (minute ?c)" and 2: "set (minute ?c) = {''0'', ''30''}"
    and 3: "distinct (hour ?c)" and 4: "set (hour ?c) = {''9''}"
    and 5: "distinct (day ?c)" and 6: "set (day ?c) = set (full_range_dict Day)"
    and 7: "distinct (month ?c)" and 8: "set (month ?c) = set month_names"
    and 9: "distinct (day_of_week ?c)"
    and 10: "set (day_of_week ?c) = {''Monday'', ''Tuesday'', ''Wednesday'', ''Thursday'', ''Friday''}"
    unfolding scenario1_run
    using distinct_full_range [of Day] by (auto simp: distinct_month_names)
  from cron_assembly [OF 1 2 3 4 5 6 7 8 9 10] show ?thesis .
qed

subsection \<open>Toggle transition\<close>

lemma getattr_setattr: "getattr (setattr c d v) d' = (if d' = d then v else getattr c d')"
  by (cases d; cases d') simp_all

lemma sentinels_match:
  "re_match (value_pattern_dict d) ALL_VALUES" "re_match (value_pattern_dict d) NO_VALUES"
  by (cases d; simp add: re_match_def ALL_VALUES_def NO_VALUES_def days_re_pattern_def
        days_of_week_re_pattern_def months_re_pattern_def minutes_re_pattern_def
        hours_re_pattern_def anchored_def digit09_def day_of_week_names_def month_names_def)+

lemma sentinels_differ: "ALL_VALUES \<noteq> NO_VALUES"
  by (simp add: ALL_VALUES_def NO_VALUES_def)



text \<open>C9.  For every component, every duplicate-free selection and every token other
  than the two sentinels, applying the toggle transition twice with that token gives
  back a selection with the membership it had before, and leaves the other
  components as they were.\<close>

theorem toggle_twice:
  assumes "distinct (getattr c d)" and "tok \<noteq> ALL_VALUES" and "tok \<noteq> NO_VALUES"
  shows "set (getattr (set_sched_parameter_value d tok (set_sched_parameter_value d tok c)) d)
           = set (getattr c d) \<and>
         (\<forall>d'. d' \<noteq> d \<longrightarrow>
            getattr (set_sched_parameter_value d tok (set_sched_parameter_value d tok c)) d'
              = getattr c d')"
proof (cases "re_match (value_pattern_dict d) tok")
  case False
  then show ?thesis by (simp add: set_sched_parameter_value_def)
next
  case True
  let ?v = "strip_prefix tok" and ?xs = "getattr c d"
  show ?thesis
  proof (cases "?v \<in> set ?xs")
    case mem: True
    have one: "set_sched_parameter_value d tok c = setattr c d (remove1 ?v ?xs)"
      using True mem assms(2,3) by (simp add: set_sched_parameter_value_def Let_def)
    have gone: "?v \<notin> set (remove1 ?v ?xs)" using assms(1) by simp
    have two: "set_sched_parameter_value d tok (setattr c d (remove1 ?v ?xs))
                 = setattr (setattr c d (remove1 ?v ?xs)) d (remove1 ?v ?xs @ [?v])"
      using True gone assms(2,3)
      by (simp add: set_sched_parameter_value_def getattr_setattr Let_def)
    have "set (remove1 ?v ?xs @ [?v]) = set ?xs" using mem assms(1) by auto
    then show ?thesis unfolding one two by (simp add: getattr_setattr)
  next
    case nomem: False
    have one: "set_sched_parameter_value d tok c = setattr c d (?xs @ [?v])"
      using True nomem assms(2,3) by (simp add: set_sched_parameter_value_def Let_def)
    have two: "set_sched_parameter_value d tok (setattr c d (?xs @ [?v]))
                 = setattr (setattr c d (?xs @ [?v])) d (remove1 ?v (?xs @ [?v]))"
      using True assms(2,3)
      by (simp add: set_sched_parameter_value_def getattr_setattr Let_def)
    have "remove1 ?v (?xs @ [?v]) = ?xs" using nomem by (simp add: remove1_append)
    then show ?thesis unfolding one two by (simp add: getattr_setattr)
  qed
qed

theorem toggle_twice_witness:
  "distinct (getattr (new_ScheduleConfig\<lparr>month := [''May'', ''June'']\<rparr>) Month) \<and>
   ''May'' \<noteq> ALL_VALUES \<and> ''May'' \<noteq> NO_VALUES \<and>
   getattr (set_sched_parameter_value Month ''May''
              (new_ScheduleConfig\<lparr>month := [''May'', ''June'']\<rparr>)) Month = [''June''] \<and>
   set (getattr (set_sched_parameter_value Month ''May'' (set_sched_parameter_value Month ''May''
          (new_ScheduleConfig\<lparr>month := [''May'', ''June'']\<rparr>))) Month)
     = set (getattr (new_ScheduleConfig\<lparr>month := [''May'', ''June'']\<rparr>) Month)"
proof -
  let ?c = "new_ScheduleConfig\<lparr>month := [''May'', ''June'']\<rparr>"
  have d: "distinct (getattr ?c Month)" by simp
  have n: "''May'' \<noteq> ALL_VALUES" "''May'' \<noteq> NO_VALUES"
    by (simp_all add: ALL_VALUES_def NO_VALUES_def)
  have o: "getattr (set_sched_parameter_value Month ''May'' ?c) Month = [''June'']"
    by code_simp
  from toggle_twice [OF d n] o d n show ?thesis by blast
qed

subsection \<open>What the patterns accept\<close>

lemma rx_lit:
  "w \<noteq> [] \<Longrightarrow>
   rx_step (lit w) (i, s) =
     (if take (length w) s = w then [(i + length w, drop (length w) s)] else [])"
proof (induction w arbitrary: i s rule: lit.induct)
  case 1
  then show ?case by simp
next
  case (2 c)
  then show ?case by (cases s) auto
next
  case (3 c d cs)
  show ?case
  proof (cases s)
    case Nil
    then show ?thesis by simp
  next
    case (Cons x t)
    then show ?thesis using "3.IH" [of "Suc i" t] by auto
  qed
qed

lemma re_match_anchored:
  assumes "w \<noteq> []"
  shows "re_match (anchored w) s \<longleftrightarrow> s = w \<or> s = w @ [newline]"
proof -
  have a: "take (length w) s = w \<and> (drop (length w) s = [] \<or> drop (length w) s = [newline])
          \<longleftrightarrow> s = w \<or> s = w @ [newline]"
    by (metis append_Nil2 append_eq_conv_conj)
  have "re_match (anchored w) s \<longleftrightarrow>
      take (length w) s = w \<and> (drop (length w) s = [] \<or> drop (length w) s = [newline])"
    by (simp add: re_match_def anchored_def rx_lit [OF assms] del: drop_eq_Nil drop_eq_Nil2)
  then show ?thesis by (simp only: a)
qed

lemma re_match_Alt: "re_match (Alt a b) s \<longleftrightarrow> re_match a s \<or> re_match b s"
  by (simp add: re_match_def)

lemma re_match_alts: "rs \<noteq> [] \<Longrightarrow> re_match (alts rs) s \<longleftrightarrow> (\<exists>r\<in>set rs. re_match r s)"
  by (induction rs rule: alts.induct) (simp_all add: re_match_Alt)

lemma re_match_prefixed:
  "w \<noteq> [] \<Longrightarrow>
   re_match (Seq Bol (Seq (lit w) r)) s \<longleftrightarrow>
     take (length w) s = w \<and> rx_step r (length w, drop (length w) s) \<noteq> []"
  by (simp add: re_match_def rx_lit)

lemma digit_char_val: "is_digit c \<Longrightarrow> digit_char (digit_val c) = c"
  by (simp add: is_digit_def digit_char_def digit_val_def)

lemma digit_val_less: "is_digit c \<Longrightarrow> digit_val c < 10"
  unfolding is_digit_def digit_val_def by arith

lemma one_digit: "is_digit a \<Longrightarrow> str_nat (digit_val a) = [a]"
  by (subst str_nat.simps) (simp add: digit_val_less digit_char_val)

lemma two_digits:
  assumes "is_digit a" and "is_digit b" and "digit_val a \<noteq> 0"
  shows "str_nat (10 * digit_val a + digit_val b) = [a, b]"
proof -
  have b: "digit_val b < 10" using assms(2) by (rule digit_val_less)
  have "(10 * digit_val a + digit_val b) div 10 = digit_val a" using b by simp
  moreover have "(10 * digit_val a + digit_val b) mod 10 = digit_val b" using b by simp
  moreover have "\<not> 10 * digit_val a + digit_val b < 10" using assms(3) by simp
  ultimately show ?thesis
    using assms(1,2) by (subst str_nat.simps) (simp add: one_digit digit_char_val)
qed

lemma in_str_range: "lo \<le> n \<Longrightarrow> n < hi \<Longrightarrow> str_nat n \<in> set (str_range lo hi)"
proof -
  assume "lo \<le> n" "n < hi"
  then have "n \<in> set [lo..<hi]" by simp
  then have "str_int (int n) \<in> set (str_range lo hi)"
    unfolding str_range_def set_map by (rule imageI)
  then show ?thesis by (simp add: str_int_def)
qed

lemma one_digit_range:
  "is_digit a \<Longrightarrow> lo \<le> digit_val a \<Longrightarrow> digit_val a < hi \<Longrightarrow> [a] \<in> set (str_range lo hi)"
  using in_str_range [of lo "digit_val a" hi] by (simp add: one_digit)

lemma two_digits_range:
  "is_digit a \<Longrightarrow> is_digit b \<Longrightarrow> digit_val a \<noteq> 0 \<Longrightarrow> lo \<le> 10 * digit_val a + digit_val b \<Longrightarrow>
   10 * digit_val a + digit_val b < hi \<Longrightarrow> [a, b] \<in> set (str_range lo hi)"
  using in_str_range [of lo "10 * digit_val a + digit_val b" hi] by (simp add: two_digits)

lemma cls_digit:
  "CHR ''0'' \<le> lo \<Longrightarrow> hi \<le> CHR ''9'' \<Longrightarrow> lo \<le> c \<Longrightarrow> c \<le> hi \<Longrightarrow>
   is_digit c \<and> digit_val lo \<le> digit_val c \<and> digit_val c \<le> digit_val hi"
  by (auto simp: less_eq_char_def is_digit_def digit_val_def)

lemma digit_vals:
  "digit_val CHR ''0'' = 0" "digit_val CHR ''1'' = 1" "digit_val CHR ''2'' = 2"
  "digit_val CHR ''3'' = 3" "digit_val CHR ''5'' = 5" "digit_val CHR ''6'' = 6"
  "digit_val CHR ''9'' = 9"
  by (simp_all add: digit_val_def)

lemma minute_body:
  assumes "rx_step (Seq (alts [digit09, Seq (Cls CHR ''1'' CHR ''5'') digit09, lit ''60'']) Eol)
             (i, t) \<noteq> []"
    and "newline \<notin> set t"
  shows "t \<in> set (str_range 0 61)"
proof (cases t rule: valid_body.cases)
  case 1
  with assms show ?thesis by (simp add: digit09_def)
next
  case (2 c)
  with assms have "CHR ''0'' \<le> c \<and> c \<le> CHR ''9''"
    by (auto simp: digit09_def split: if_splits)
  then have "is_digit c" "digit_val c \<le> 9"
    using cls_digit [of "CHR ''0''" "CHR ''9''" c] by (simp_all add: digit_vals)
  then show ?thesis using 2 by (simp add: one_digit_range)
next
  case (3 c d r)
  with assms have r: "r = []"
    by (auto simp: digit09_def split: if_splits list.splits)
  from 3 assms r have
    "(CHR ''1'' \<le> c \<and> c \<le> CHR ''5'' \<and> CHR ''0'' \<le> d \<and> d \<le> CHR ''9'') \<or>
     (c = CHR ''6'' \<and> d = CHR ''0'')"
    by (auto simp: digit09_def split: if_splits)
  then show ?thesis
  proof
    assume a: "CHR ''1'' \<le> c \<and> c \<le> CHR ''5'' \<and> CHR ''0'' \<le> d \<and> d \<le> CHR ''9''"
    have c: "is_digit c" "1 \<le> digit_val c" "digit_val c \<le> 5"
      using a cls_digit [of "CHR ''1''" "CHR ''5''" c] by (simp_all add: digit_vals)
    have d: "is_digit d" "digit_val d \<le> 9"
      using a cls_digit [of "CHR ''0''" "CHR ''9''" d] by (simp_all add: digit_vals)
    show ?thesis unfolding 3 r using c d by (intro two_digits_range) simp_all
  next
    assume a: "c = CHR ''6'' \<and> d = CHR ''0''"
    have "is_digit CHR ''6''" "is_digit CHR ''0''" by (simp_all add: is_digit_def)
    then show ?thesis unfolding 3 r using a
      by (intro two_digits_range) (simp_all add: digit_vals)
  qed
qed

lemma digit_val_nonzero: "is_digit c \<Longrightarrow> c \<noteq> CHR ''0'' \<Longrightarrow> digit_val c \<noteq> 0"
proof
  assume d: "is_digit c" and n: "c \<noteq> CHR ''0''" and z: "digit_val c = 0"
  then have "(of_char c :: nat) = of_char CHR ''0''"
    by (simp add: is_digit_def digit_val_def)
  then have "c = CHR ''0''" by (simp only: of_char_eq_iff)
  with n show False by simp
qed

lemma days_plain:
  assumes "re_match days_re_pattern t" and "newline \<notin> set t"
    and "t \<noteq> ALL_VALUES" and "t \<noteq> NO_VALUES"
  shows "t \<in> set (str_range 1 32)"
proof (cases t rule: valid_body.cases)
  case 1
  with assms(1) show ?thesis by (simp add: re_match_def days_re_pattern_def digit09_def)
next
  case (2 c)
  with assms(1) have "CHR ''0'' \<le> c \<and> c \<le> CHR ''9''"
    by (auto simp: re_match_def days_re_pattern_def digit09_def split: if_splits)
  then have c: "is_digit c" "digit_val c \<le> 9"
    using cls_digit [of "CHR ''0''" "CHR ''9''" c] by (simp_all add: digit_vals)
  have "c \<noteq> CHR ''0''" using assms(3) 2 by (simp add: ALL_VALUES_def)
  then have "digit_val c \<noteq> 0" using c(1) by (simp add: digit_val_nonzero)
  then show ?thesis using 2 c by (simp add: one_digit_range)
next
  case (3 c d r)
  with assms(1,2) have r: "r = []"
    by (auto simp: re_match_def days_re_pattern_def digit09_def split: if_splits list.splits)
  from 3 assms(1) r have
    "(c = CHR ''-'' \<and> d = CHR ''1'') \<or>
     (c = CHR ''1'' \<and> CHR ''0'' \<le> d \<and> d \<le> CHR ''9'') \<or>
     (c = CHR ''2'' \<and> CHR ''0'' \<le> d \<and> d \<le> CHR ''9'') \<or>
     (c = CHR ''3'' \<and> CHR ''0'' \<le> d \<and> d \<le> CHR ''1'')"
    using assms(2)
    by (auto simp: re_match_def days_re_pattern_def digit09_def split: if_splits)
  moreover have "\<not> (c = CHR ''-'' \<and> d = CHR ''1'')"
    using assms(4) 3 r by (simp add: NO_VALUES_def)
  moreover have dig: "is_digit CHR ''1''" "is_digit CHR ''2''" "is_digit CHR ''3''"
    by (simp_all add: is_digit_def)
  ultimately consider
      (a) "c = CHR ''1''" "is_digit d" "digit_val d \<le> 9"
    | (b) "c = CHR ''2''" "is_digit d" "digit_val d \<le> 9"
    | (c) "c = CHR ''3''" "is_digit d" "digit_val d \<le> 1"
    using cls_digit [of "CHR ''0''" "CHR ''9''" d] cls_digit [of "CHR ''0''" "CHR ''1''" d]
    by (auto simp: digit_vals less_eq_char_def)
  then show ?thesis
  proof cases
    case a
    then show ?thesis unfolding 3 r using dig
      by (intro two_digits_range) (simp_all add: digit_vals)
  next
    case b
    then show ?thesis unfolding 3 r using dig
      by (intro two_digits_range) (simp_all add: digit_vals)
  next
    case c
    then show ?thesis unfolding 3 r using dig
      by (intro two_digits_range) (simp_all add: digit_vals)
  qed
qed

lemma hour_body:
  assumes "rx_step (Seq (alts [digit09, Seq (Lit CHR ''1'') digit09,
             Seq (Lit CHR ''2'') (Cls CHR ''0'' CHR ''3'')]) Eol) (i, t) \<noteq> []"
    and "newline \<notin> set t"
  shows "t \<in> set (str_range 0 24)"
proof (cases t rule: valid_body.cases)
  case 1
  with assms show ?thesis by (simp add: digit09_def)
next
  case (2 c)
  with assms have "CHR ''0'' \<le> c \<and> c \<le> CHR ''9''"
    by (auto simp: digit09_def split: if_splits)
  then have "is_digit c" "digit_val c \<le> 9"
    using cls_digit [of "CHR ''0''" "CHR ''9''" c] by (simp_all add: digit_vals)
  then show ?thesis using 2 by (simp add: one_digit_range)
next
  case (3 c d r)
  with assms have r: "r = []"
    by (auto simp: digit09_def split: if_splits list.splits)
  from 3 assms r have
    "(c = CHR ''1'' \<and> CHR ''0'' \<le> d \<and> d \<le> CHR ''9'') \<or>
     (c = CHR ''2'' \<and> CHR ''0'' \<le> d \<and> d \<le> CHR ''3'')"
    by (auto simp: digit09_def split: if_splits)
  moreover have dig: "is_digit CHR ''1''" "is_digit CHR ''2''"
    by (simp_all add: is_digit_def)
  ultimately consider
      (a) "c = CHR ''1''" "is_digit d" "digit_val d \<le> 9"
    | (b) "c = CHR ''2''" "is_digit d" "digit_val d \<le> 3"
    using cls_digit [of "CHR ''0''" "CHR ''9''" d] cls_digit [of "CHR ''0''" "CHR ''3''" d]
    by (auto simp: digit_vals less_eq_char_def)
  then show ?thesis
  proof cases
    case a
    then show ?thesis unfolding 3 r using dig
      by (intro two_digits_range) (simp_all add: digit_vals)
  next
    case b
    then show ?thesis unfolding 3 r using dig
      by (intro two_digits_range) (simp_all add: digit_vals)
  qed
qed


lemma hour_tokens_map: "hour_tokens = map (\<lambda>t. ''hour_'' @ t) (str_range 0 24)"
  by (simp add: hour_tokens_def str_range_def)

lemma sentinel_words: "''-1'' \<noteq> []" "''0'' \<noteq> []" "''hour_'' \<noteq> []" "''minute_'' \<noteq> []"
  by simp_all

lemma hours_alternatives:
  "re_match hours_re_pattern tok \<longleftrightarrow>
     re_match (anchored ''-1'') tok \<or> re_match (anchored ''0'') tok \<or>
     re_match (Seq Bol (Seq (lit ''hour_'')
       (Seq (alts [digit09, Seq (Lit CHR ''1'') digit09,
                   Seq (Lit CHR ''2'') (Cls CHR ''0'' CHR ''3'')]) Eol))) tok"
  unfolding hours_re_pattern_def
  by (subst alts.simps, subst re_match_Alt, subst alts.simps, subst re_match_Alt, subst alts.simps)
     (rule refl)

lemma hour_tokens_eval:
  "hour_tokens = [''hour_0'', ''hour_1'', ''hour_2'', ''hour_3'', ''hour_4'', ''hour_5'',
     ''hour_6'', ''hour_7'', ''hour_8'', ''hour_9'', ''hour_10'', ''hour_11'', ''hour_12'',
     ''hour_13'', ''hour_14'', ''hour_15'', ''hour_16'', ''hour_17'', ''hour_18'', ''hour_19'',
     ''hour_20'', ''hour_21'', ''hour_22'', ''hour_23'']"
  by code_simp

lemma hour_tokens_accepted:
  "list_all (\<lambda>w. re_match hours_re_pattern w \<and> newline \<notin> set w)
     ([NO_VALUES, ALL_VALUES] @ hour_tokens)"
  by code_simp

lemma hours_accept_plain:
  "re_match hours_re_pattern tok \<and> newline \<notin> set tok \<longleftrightarrow>
     tok \<in> set ([NO_VALUES, ALL_VALUES] @ hour_tokens)"
proof
  assume a: "re_match hours_re_pattern tok \<and> newline \<notin> set tok"
  then have nl: "tok \<noteq> w @ [newline]" for w by auto
  have l: "length ''hour_'' = 5" by simp
  have m: "re_match (anchored ''-1'') tok \<Longrightarrow> tok = ''-1''"
    using nl [of "''-1''"] by (simp only: re_match_anchored [OF sentinel_words(1)]) blast
  have z: "re_match (anchored ''0'') tok \<Longrightarrow> tok = ''0''"
    using nl [of "''0''"] by (simp only: re_match_anchored [OF sentinel_words(2)]) blast
  have h: "tok \<in> set hour_tokens"
    if "re_match (Seq Bol (Seq (lit ''hour_'')
         (Seq (alts [digit09, Seq (Lit CHR ''1'') digit09,
                     Seq (Lit CHR ''2'') (Cls CHR ''0'' CHR ''3'')]) Eol))) tok"
  proof -
    from that have p: "take 5 tok = ''hour_''"
      and b: "rx_step (Seq (alts [digit09, Seq (Lit CHR ''1'') digit09,
             Seq (Lit CHR ''2'') (Cls CHR ''0'' CHR ''3'')]) Eol) (5, drop 5 tok) \<noteq> []"
      unfolding re_match_prefixed [OF sentinel_words(3)] l by (rule conjunct1, rule conjunct2)
    have "newline \<notin> set (drop 5 tok)" using a by (meson in_set_dropD)
    from hour_body [OF b this] have "drop 5 tok \<in> set (str_range 0 24)" .
    moreover have "tok = ''hour_'' @ drop 5 tok"
      using p by (metis append_take_drop_id)
    ultimately show ?thesis
      unfolding hour_tokens_map set_map by (metis imageI)
  qed
  from a have "re_match hours_re_pattern tok" by (rule conjunct1)
  then have "tok = ''-1'' \<or> tok = ''0'' \<or> tok \<in> set hour_tokens"
    unfolding hours_alternatives using m z h by blast
  then show "tok \<in> set ([NO_VALUES, ALL_VALUES] @ hour_tokens)"
    by (auto simp: NO_VALUES_def ALL_VALUES_def)
next
  assume "tok \<in> set ([NO_VALUES, ALL_VALUES] @ hour_tokens)"
  then show "re_match hours_re_pattern tok \<and> newline \<notin> set tok"
    using hour_tokens_accepted unfolding list_all_iff by blast
qed

subsection \<open>The hour value 24\<close>

lemma strip_prefix_24:
  assumes "strip_prefix tok = ''24''"
  shows "tok = ''24'' \<or> tok = ''hour_24'' \<or> tok = ''minute_24''"
proof -
  have h: "take 5 tok = ''hour_'' \<Longrightarrow> drop 5 tok = ''24'' \<Longrightarrow> tok = ''hour_24''"
    by (metis append_Cons append_Nil append_take_drop_id)
  have m: "take 7 tok = ''minute_'' \<Longrightarrow> drop 7 tok = ''24'' \<Longrightarrow> tok = ''minute_24''"
    by (metis append_Cons append_Nil append_take_drop_id)
  show ?thesis using assms h m by (auto simp: strip_prefix_def split: if_splits)
qed

lemma no_match_24:
  "\<not> re_match hours_re_pattern ''24''" "\<not> re_match hours_re_pattern ''hour_24''"
  "\<not> re_match hours_re_pattern ''minute_24''"
  by (simp_all add: re_match_def hours_re_pattern_def anchored_def digit09_def newline_def)

lemma toggle_not_24:
  "re_match hours_re_pattern tok \<Longrightarrow> strip_prefix tok \<noteq> ''24''"
  using strip_prefix_24 [of tok] no_match_24 by auto

lemma full_range_hour_24: "''24'' \<in> set (full_range_dict Hour)"
  by code_simp

text \<open>C10 fails on the code.  The hour pattern is written to accept, besides the
  sentinels \<open>0\<close> and \<open>-1\<close>, only the tokens \<open>hour_0\<close> to \<open>hour_23\<close>; since its \<open>$\<close> also
  holds before a final newline, it accepts \<open>hour_5\<close> followed by a newline as well,
  which is neither a sentinel nor one of these tokens.\<close>

theorem hour_pattern_counterexample:
  "re_match hours_re_pattern (''hour_5'' @ [newline]) \<and>
   ''hour_5'' @ [newline] \<notin> set ([NO_VALUES, ALL_VALUES] @ hour_tokens)"
  unfolding hour_tokens_eval
  by (simp add: re_match_def hours_re_pattern_def anchored_def digit09_def newline_def
        NO_VALUES_def ALL_VALUES_def)

text \<open>What holds of the hour besides that.  Among the tokens that contain no newline,
  the hour pattern accepts exactly the sentinels \<open>-1\<close> and \<open>0\<close> and the tokens \<open>hour_0\<close>
  to \<open>hour_23\<close>.  The label \<open>24\<close> belongs to the full range of the hour.  Whatever
  the token and the configuration, a transition on the hour after which \<open>24\<close> is
  selected, when it was not selected before, is the one of the sentinel \<open>0\<close>; and
  that transition does select \<open>24\<close>.\<close>

theorem hour_24_only_by_all_values:
  "(re_match hours_re_pattern tok \<and> newline \<notin> set tok \<longleftrightarrow>
      tok \<in> set ([NO_VALUES, ALL_VALUES] @ hour_tokens)) \<and>
   ''24'' \<in> set (full_range_dict Hour) \<and>
   (''24'' \<in> set (hour (set_sched_parameter_value Hour tok c)) \<and> ''24'' \<notin> set (hour c)
      \<longrightarrow> tok = ALL_VALUES) \<and>
   ''24'' \<in> set (hour (set_sched_parameter_value Hour ALL_VALUES c))"
proof -
  have add: "''24'' \<in> set (hour (set_sched_parameter_value Hour tok c)) \<Longrightarrow>
      ''24'' \<notin> set (hour c) \<Longrightarrow> tok = ALL_VALUES"
  proof (rule ccontr)
    assume new: "''24'' \<in> set (hour (set_sched_parameter_value Hour tok c))"
      and old: "''24'' \<notin> set (hour c)" and na: "tok \<noteq> ALL_VALUES"
    show False
    proof (cases "re_match hours_re_pattern tok")
      case False
      with new old show False by (simp add: set_sched_parameter_value_def)
    next
      case True
      then have "strip_prefix tok \<noteq> ''24''" by (rule toggle_not_24)
      with True new old na show False
        by (auto simp: set_sched_parameter_value_def Let_def split: if_splits
              dest: notin_set_remove1)
    qed
  qed
  have all: "''24'' \<in> set (hour (set_sched_parameter_value Hour ALL_VALUES c))"
    using sentinels_match(1) [of Hour] sentinels_differ full_range_hour_24
    by (simp add: set_sched_parameter_value_def)
  show ?thesis using hours_accept_plain add all full_range_hour_24 by blast
qed

theorem hour_24_only_by_all_values_witness:
  "''24'' \<in> set (hour (set_sched_parameter_value Hour ''0'' new_ScheduleConfig)) \<and>
   ''24'' \<notin> set (hour new_ScheduleConfig) \<and> ''0'' = ALL_VALUES \<and>
   re_match hours_re_pattern ''hour_23'' \<and> newline \<notin> set ''hour_23'' \<and>
   ''hour_23'' \<in> set ([NO_VALUES, ALL_VALUES] @ hour_tokens)"
proof -
  have a: "''24'' \<in> set (hour (set_sched_parameter_value Hour ''0'' new_ScheduleConfig))"
    by code_simp
  have b: "''24'' \<notin> set (hour new_ScheduleConfig)"
    by (simp add: new_ScheduleConfig_def)
  have m: "re_match hours_re_pattern ''hour_23''"
    by (simp add: re_match_def hours_re_pattern_def anchored_def digit09_def)
  have n: "newline \<notin> set ''hour_23''" by (simp add: newline_def)
  from hour_24_only_by_all_values [of "''0''" new_ScheduleConfig] a b
  have z: "''0'' = ALL_VALUES" by blast
  from hour_24_only_by_all_values [of "''hour_23''" new_ScheduleConfig] m n
  have "''hour_23'' \<in> set ([NO_VALUES, ALL_VALUES] @ hour_tokens)" by blast
  with a b z m n show ?thesis by blast
qed

subsection \<open>Labels outside the full range\<close>

text \<open>C4 fails on the code.  From the empty configuration, the token \<open>hour_5\<close> followed
  by a newline passes the hour pattern, whose \<open>$\<close> also holds before a final newline;
  the handler then stores the label \<open>5\<close> followed by a newline, which is not a label
  of the full range of the hour.\<close>

theorem trailing_newline_label:
  "re_match (value_pattern_dict Hour) (''hour_5'' @ [newline]) \<and>
   hour (run_toggles [(Hour, ''hour_5'' @ [newline])] new_ScheduleConfig) = [''5'' @ [newline]] \<and>
   ''5'' @ [newline] \<notin> set (full_range_dict Hour)"
  by code_simp

subsection \<open>The selections after toggle events without a newline\<close>

lemma names_accept:
  assumes "[] \<notin> set names"
    and "re_match (alts ([anchored ''-1'', anchored ''0''] @ map anchored names)) t"
    and "newline \<notin> set t" and "t \<noteq> ALL_VALUES" and "t \<noteq> NO_VALUES"
  shows "t \<in> set names"
proof -
  have "\<exists>r\<in>set ([anchored ''-1'', anchored ''0''] @ map anchored names). re_match r t"
    using assms(2) by (subst (asm) re_match_alts) simp_all
  then obtain w where w: "w \<in> set ([''-1'', ''0''] @ names)" and m: "re_match (anchored w) t"
    by auto
  have "w \<noteq> []" using w assms(1) by auto
  then have "t = w \<or> t = w @ [newline]" using m by (simp add: re_match_anchored)
  moreover have "t \<noteq> w @ [newline]" using assms(3) by auto
  ultimately have "t = w" by simp
  with w assms(4,5) show ?thesis by (auto simp: ALL_VALUES_def NO_VALUES_def)
qed

lemma names_nonempty: "[] \<notin> set month_names" "[] \<notin> set day_of_week_names"
  by (simp_all add: month_names_def day_of_week_names_def)

lemma strip_prefix_name:
  "t \<in> set month_names \<or> t \<in> set day_of_week_names \<Longrightarrow> strip_prefix t = t"
  by (auto simp: month_names_def day_of_week_names_def strip_prefix_def)

lemma strip_prefix_digits: "t \<in> set (str_range a b) \<Longrightarrow> strip_prefix t = t"
proof -
  assume "t \<in> set (str_range a b)"
  then obtain n where t: "t = str_nat n" by (auto simp: str_range_def str_int_def)
  obtain c u where cu: "str_nat n = c # u" and d: "is_digit c"
    using hd_str_nat_digit by blast
  have "c \<noteq> CHR ''h''" "c \<noteq> CHR ''m''" using d by (auto simp: is_digit_def)
  then show ?thesis by (simp add: strip_prefix_def t cu)
qed

lemma minutes_alternatives:
  "re_match minutes_re_pattern tok \<longleftrightarrow>
     re_match (anchored ''-1'') tok \<or> re_match (anchored ''0'') tok \<or>
     re_match (Seq Bol (Seq (lit ''minute_'')
       (Seq (alts [digit09, Seq (Cls CHR ''1'' CHR ''5'') digit09, lit ''60'']) Eol))) tok"
  unfolding minutes_re_pattern_def
  by (subst alts.simps, subst re_match_Alt, subst alts.simps, subst re_match_Alt, subst alts.simps)
     (rule refl)

lemma minutes_plain:
  assumes "re_match minutes_re_pattern t" and "newline \<notin> set t"
    and "t \<noteq> ALL_VALUES" and "t \<noteq> NO_VALUES"
  shows "strip_prefix t \<in> set (str_range 0 61)"
proof -
  have "\<not> re_match (anchored ''-1'') t" "\<not> re_match (anchored ''0'') t"
    using assms(2,3,4)
    by (auto simp: re_match_anchored [OF sentinel_words(1)] re_match_anchored [OF sentinel_words(2)]
          ALL_VALUES_def NO_VALUES_def)
  moreover have l: "length ''minute_'' = 7" by simp
  ultimately have pb: "take 7 t = ''minute_'' \<and>
      rx_step (Seq (alts [digit09, Seq (Cls CHR ''1'' CHR ''5'') digit09, lit ''60'']) Eol)
        (7, drop 7 t) \<noteq> []"
    using assms(1) unfolding minutes_alternatives re_match_prefixed [OF sentinel_words(4)] l
    by blast
  have p: "take 7 t = ''minute_''" using pb by (rule conjunct1)
  have b: "rx_step (Seq (alts [digit09, Seq (Cls CHR ''1'' CHR ''5'') digit09, lit ''60'']) Eol)
        (7, drop 7 t) \<noteq> []" using pb by (rule conjunct2)
  have "newline \<notin> set (drop 7 t)" using assms(2) by (meson in_set_dropD)
  from minute_body [OF b this] have v: "drop 7 t \<in> set (str_range 0 61)" .
  have "take 5 t = take 5 (take 7 t)" by simp
  then have "take 5 t \<noteq> ''hour_''" unfolding p by simp
  then have "strip_prefix t = drop 7 t" using p by (simp add: strip_prefix_def)
  with v show ?thesis by simp
qed

lemma hours_plain:
  assumes "re_match hours_re_pattern t" and "newline \<notin> set t"
    and "t \<noteq> ALL_VALUES" and "t \<noteq> NO_VALUES"
  shows "strip_prefix t \<in> set (str_range 0 25)"
proof -
  have "t \<in> set ([NO_VALUES, ALL_VALUES] @ hour_tokens)"
    using assms(1,2) hours_accept_plain by blast
  then have "t \<in> set hour_tokens" using assms(3,4) by simp
  then obtain w where w: "w \<in> set (str_range 0 24)" and t: "t = ''hour_'' @ w"
    unfolding hour_tokens_map by auto
  have "strip_prefix t = w" by (simp add: t strip_prefix_def)
  moreover have "w \<in> set (str_range 0 25)" using w by (auto simp: str_range_def)
  ultimately show ?thesis by simp
qed

lemma accepted_value:
  assumes "re_match (value_pattern_dict d) t" and "newline \<notin> set t"
    and "t \<noteq> ALL_VALUES" and "t \<noteq> NO_VALUES"
  shows "strip_prefix t \<in> set (full_range_dict d)"
proof (cases d)
  case Minute
  then show ?thesis using minutes_plain assms by simp
next
  case Hour
  then show ?thesis using hours_plain assms by simp
next
  case Day
  then have "t \<in> set (str_range 1 32)" using days_plain assms by simp
  then show ?thesis using Day strip_prefix_digits [of t 1 32] by simp
next
  case Month
  then have "t \<in> set month_names"
    using names_accept [OF names_nonempty(1)] assms by (simp add: months_re_pattern_def)
  then show ?thesis using Month strip_prefix_name [of t] by simp
next
  case Day_of_week
  then have "t \<in> set day_of_week_names"
    using names_accept [OF names_nonempty(2)] assms by (simp add: days_of_week_re_pattern_def)
  then show ?thesis using Day_of_week strip_prefix_name [of t] by simp
qed

text \<open>Apart from tokens with a newline, the transitions keep every selection inside
  the full range of its component and free of duplicates.\<close>

lemma toggle_selection_ok:
  assumes "newline \<notin> set tok" and "selection_ok c d'"
  shows "selection_ok (set_sched_parameter_value d tok c) d'"
proof (cases "d' = d")
  case False
  then show ?thesis using assms(2)
    by (simp add: selection_ok_def set_sched_parameter_value_def getattr_setattr Let_def)
next
  case True
  show ?thesis
  proof (cases "re_match (value_pattern_dict d) tok \<and> tok \<noteq> ALL_VALUES \<and> tok \<noteq> NO_VALUES")
    case False
    then show ?thesis using assms(2) True distinct_full_range [of d]
      by (auto simp: selection_ok_def set_sched_parameter_value_def getattr_setattr Let_def)
  next
    case m: True
    then have "strip_prefix tok \<in> set (full_range_dict d)"
      using accepted_value [OF _ assms(1)] by blast
    then show ?thesis using assms(2) True m
      by (auto simp: selection_ok_def set_sched_parameter_value_def getattr_setattr Let_def
            dest: notin_set_remove1)
  qed
qed

lemma new_selection_ok: "selection_ok new_ScheduleConfig d"
  by (cases d) (simp_all add: selection_ok_def new_ScheduleConfig_def)

lemma run_toggles_from:
  "\<forall>(d, tok)\<in>set evs. newline \<notin> set tok \<Longrightarrow> selection_ok c d' \<Longrightarrow>
   selection_ok (run_toggles evs c) d'"
proof (induction evs arbitrary: c)
  case Nil
  then show ?case by simp
next
  case (Cons ev evs)
  obtain d tok where ev: "ev = (d, tok)" by (cases ev)
  have "selection_ok (set_sched_parameter_value d tok c) d'"
    using Cons.prems ev by (auto intro: toggle_selection_ok)
  then show ?case using Cons.IH [of "set_sched_parameter_value d tok c"] Cons.prems(1) ev
    by simp
qed

text \<open>From the empty configuration, toggle events whose tokens contain no newline
  leave every selection duplicate-free and inside the full range of its
  component.\<close>

lemma run_toggles_selection_ok:
  "\<forall>(d, tok)\<in>set evs. newline \<notin> set tok \<Longrightarrow>
   selection_ok (run_toggles evs new_ScheduleConfig) d'"
  using run_toggles_from [OF _ new_selection_ok] by blast

subsection \<open>Commit handlers\<close>

text \<open>C6 fails on the code.  In the immediate-play handler the check of the sound file
  only sends its message: with the file missing and a backend that accepts, the
  schedule is posted all the same and the handler reports success; and when the
  backend refuses, the entry keeps the cron string of the immediate play instead of
  the one it had before.\<close>

theorem missing_file_commit:
  "set_for_play_now (backend True False) ready_session =
     (RECORD_OR_UPLOAD_SOUND_MENU, ready_session,
      [Answer, Edit_message_text ''Sound file does not exist'',
       Post_schedule 1 42 ''0 0 0 0 0'' ''/shared/sound.mp3'',
       Immediate_play_message ''clock'']) \<and>
   set_for_play_now (backend False True) ready_session =
     (Result_None,
      ready_session\<lparr>schedule_entry := Some \<lparr>device_id = 1, user_id = 42,
         cron_string = ''0 0 0 0 0'', sound_file_path = Some ''/shared/sound.mp3''\<rparr>\<rparr>,
      [Answer, Post_schedule 1 42 ''0 0 0 0 0'' ''/shared/sound.mp3'',
       Edit_message_text ''Failed to create immediate schedule''])"
  by (simp add: set_for_play_now_def backend_def ready_session_def)









text \<open>C8.  When the immediate-play handler reaches the commit (the entry is there and
  names a sound file), the one schedule it posts carries the cron string
  \<open>0 0 0 0 0\<close>, and its result, its effects and the entry it leaves are the same
  whatever the five selections are, which stay as they were.  When the backend
  accepts, the session afterwards differs from the one before in nothing but the
  cron string of the entry, which is empty: device, user and sound file are
  unchanged.  When the backend refuses, the cron string of the entry is
  \<open>0 0 0 0 0\<close>.\<close>

theorem immediate_play_frame:
  assumes "schedule_entry ud = Some entry" and "sound_file_path entry = Some path"
    and "path \<noteq> []"
  shows "posts (snd (snd (set_for_play_now w ud))) =
           [Post_schedule (device_id entry) (user_id entry) ''0 0 0 0 0'' path] \<and>
         set_for_play_now w (ud\<lparr>schedule_info := selections\<rparr>) =
           (case set_for_play_now w ud of
              (result, ud', effects) \<Rightarrow> (result, ud'\<lparr>schedule_info := selections\<rparr>, effects)) \<and>
         (create_cron_schedule w (device_id entry) (user_id entry) ''0 0 0 0 0'' path \<longrightarrow>
            fst (set_for_play_now w ud) = RECORD_OR_UPLOAD_SOUND_MENU \<and>
            fst (snd (set_for_play_now w ud)) =
              ud\<lparr>schedule_entry := Some (entry\<lparr>cron_string := ''''\<rparr>)\<rparr>) \<and>
         (\<not> create_cron_schedule w (device_id entry) (user_id entry) ''0 0 0 0 0'' path \<longrightarrow>
            fst (snd (set_for_play_now w ud)) =
              ud\<lparr>schedule_entry := Some (entry\<lparr>cron_string := ''0 0 0 0 0''\<rparr>)\<rparr>)"
  using assms by (simp add: set_for_play_now_def posts_def Let_def)

theorem immediate_play_frame_witness:
  "schedule_entry ready_session =
     Some \<lparr>device_id = 1, user_id = 42, cron_string = '''',
           sound_file_path = Some ''/shared/sound.mp3''\<rparr> \<and>
   ''/shared/sound.mp3'' \<noteq> [] \<and>
   create_cron_schedule (backend True True) 1 42 ''0 0 0 0 0'' ''/shared/sound.mp3'' \<and>
   posts (snd (snd (set_for_play_now (backend True True) ready_session))) =
     [Post_schedule 1 42 ''0 0 0 0 0'' ''/shared/sound.mp3''] \<and>
   fst (set_for_play_now (backend True True) ready_session) = RECORD_OR_UPLOAD_SOUND_MENU \<and>
   fst (snd (set_for_play_now (backend True True) ready_session)) = ready_session"
proof -
  let ?e = "\<lparr>device_id = 1, user_id = 42, cron_string = '''',
             sound_file_path = Some ''/shared/sound.mp3''\<rparr>"
  have e: "schedule_entry ready_session = Some ?e" by (simp add: ready_session_def)
  have p: "sound_file_path ?e = Some ''/shared/sound.mp3''" by simp
  have n: "''/shared/sound.mp3'' \<noteq> []" by simp
  have a: "create_cron_schedule (backend True True) 1 42 ''0 0 0 0 0'' ''/shared/sound.mp3''"
    by (simp add: backend_def)
  have same: "ready_session\<lparr>schedule_entry := Some (?e\<lparr>cron_string := ''''\<rparr>)\<rparr> = ready_session"
    by (simp add: ready_session_def)
  from immediate_play_frame [OF e p n, of "backend True True"] a
  have "posts (snd (snd (set_for_play_now (backend True True) ready_session))) =
          [Post_schedule 1 42 ''0 0 0 0 0'' ''/shared/sound.mp3'']"
    and "fst (set_for_play_now (backend True True) ready_session) = RECORD_OR_UPLOAD_SOUND_MENU"
    and "fst (snd (set_for_play_now (backend True True) ready_session)) =
           ready_session\<lparr>schedule_entry := Some (?e\<lparr>cron_string := ''''\<rparr>)\<rparr>"
    by simp_all
  then show ?thesis using e n a unfolding same by blast
qed

end
